theory Spec2Isabelle
  imports Main
begin

section \<open>The injection context\<close>

text \<open>
  \<^verbatim>\<open>InjectionContext\<close> is an abstract class with three public static fields:
  \<^verbatim>\<open>contextOpen\<close>, \<^verbatim>\<open>calls\<close> and \<^verbatim>\<open>injector\<close>. They are process-wide state, so
  they are the fields of a record; every other piece of program state a producer or a
  scanner can reach is the record's extension (the \<open>more\<close> part of the scheme).
  Injection nodes are values of type \<open>'n\<close>, and a JavaScript \<^verbatim>\<open>Set\<close> of them is a
  HOL set. The injector is a function the context only stores and never calls, so it
  is an opaque value of type \<open>'i\<close>; \<^verbatim>\<open>null\<close> is \<open>None\<close>.
\<close>

record ('n, 'i) InjectionContext =
  contextOpen :: bool
  calls :: "'n set"
  injector :: "'i option"

type_synonym ('n, 'i, 'w) world = "('n, 'i, 'w) InjectionContext_scheme"

text \<open>
  A call of user code (\<^verbatim>\<open>factory()\<close>) runs on the whole program state, may change
  it (it may record injection calls, or enter the context again), and either throws a
  value of type \<open>'e\<close> or returns a value of type \<open>'v\<close>. Calls that do not return are
  outside this model.
\<close>

type_synonym ('n, 'i, 'w, 'e, 'v) factory =
  "('n, 'i, 'w) world \<Rightarrow> ('e + 'v) \<times> ('n, 'i, 'w) world"

text \<open>
  A context scanner has one method, \<^verbatim>\<open>scan(factory): Set<iInjectionNode>\<close>. It is
  code of a plugin: it receives the factory, runs on the program state, and throws or
  returns a set of nodes.
\<close>

type_synonym ('n, 'i, 'w, 'e, 'v) scanner =
  "('n, 'i, 'w, 'e, 'v) factory \<Rightarrow> ('n, 'i, 'w) world \<Rightarrow> ('e + 'n set) \<times> ('n, 'i, 'w) world"

text \<open>
  The argument of \<^verbatim>\<open>scan\<close> has type \<^verbatim>\<open>any\<close>; the code asks
  \<^verbatim>\<open>typeof factory !== "function"\<close> first. A value that is not a function is
  represented by what \<^verbatim>\<open>typeof\<close> says of it; nothing else of it is read.
\<close>

datatype js_typeof = Undefined | Object | Boolean | Number | Bigint | String | Symbol

datatype 'f js_value = Function 'f | NotFunction js_typeof

datatype injection_error = CalledUtilsOutsideContext

text \<open>
  \<^verbatim>\<open>open(injector?)\<close>: the assignments in the order of the source. The parameter is an
  \<^verbatim>\<open>InjectorFn\<close> or absent, and \<^verbatim>\<open>injector || null\<close> turns the absent one into
  \<^verbatim>\<open>null\<close>.
\<close>

definition "open" :: "'i option \<Rightarrow> ('n, 'i, 'w) world \<Rightarrow> ('n, 'i, 'w) world" where
  "open i s = s\<lparr>calls := {}, contextOpen := True, injector := i\<rparr>"

definition getCalls :: "('n, 'i, 'w) world \<Rightarrow> injection_error + 'n set" where
  "getCalls s = (if \<not> contextOpen s then Inl CalledUtilsOutsideContext else Inr (calls s))"

definition close :: "('n, 'i, 'w) world \<Rightarrow> ('n, 'i, 'w) world" where
  "close s = s\<lparr>contextOpen := False, calls := {}, injector := None\<rparr>"

text \<open>
  The loop \<^verbatim>\<open>for (const scanner of scanners)\<close> of \<^verbatim>\<open>scan\<close>. There is no
  \<^verbatim>\<open>try\<close> around \<^verbatim>\<open>scanner.scan(factory)\<close>: a throw leaves the loop and the function.
  The inner loop adds every scanned node to \<^verbatim>\<open>InjectionContext.calls\<close>.
\<close>

fun scan_loop ::
  "('n, 'i, 'w, 'e, 'v) scanner list \<Rightarrow> ('n, 'i, 'w, 'e, 'v) factory \<Rightarrow> ('n, 'i, 'w) world
    \<Rightarrow> ('e + unit) \<times> ('n, 'i, 'w) world" where
  "scan_loop [] factory s = (Inr (), s)"
| "scan_loop (scanner # scanners) factory s =
     (case scanner factory s of
        (Inl e, s') \<Rightarrow> (Inl e, s')
      | (Inr scanned, s') \<Rightarrow> scan_loop scanners factory (s'\<lparr>calls := calls s' \<union> scanned\<rparr>))"

text \<open>
  \<^verbatim>\<open>scan(factory)\<close>. The static \<^verbatim>\<open>_scanners\<close> is the array of registered scanners
  of the plugin container; its content when the loop runs is the first argument here, in
  registration order (a scanner registered while the loop runs is outside this model).
  The result and the exception of \<^verbatim>\<open>factory()\<close> are both dropped by the empty
  \<^verbatim>\<open>catch\<close>; only the state it leaves is kept.
\<close>

definition scan ::
  "('n, 'i, 'w, 'e, 'v) scanner list \<Rightarrow> ('n, 'i, 'w, 'e, 'v) factory js_value
    \<Rightarrow> ('n, 'i, 'w) world \<Rightarrow> ('e + 'n set) \<times> ('n, 'i, 'w) world" where
  "scan scanners factory s =
     (case factory of
        NotFunction _ \<Rightarrow> (Inr {}, s)
      | Function f \<Rightarrow>
          (let s1 = snd (f (open None s)) in
           case scan_loop scanners f s1 of
             (Inl e, s2) \<Rightarrow> (Inl e, s2)
           | (Inr _, s2) \<Rightarrow> (Inr (calls s2), close s2)))"

text \<open>
  \<^verbatim>\<open>instantiate(factory, injector)\<close>: \<^verbatim>\<open>try { return factory(); } finally { close(); }\<close>.
  The \<^verbatim>\<open>finally\<close> block runs after a return and after a throw alike, and the
  completion of the \<^verbatim>\<open>try\<close> block is kept.
\<close>

definition instantiate ::
  "('n, 'i, 'w, 'e, 'v) factory \<Rightarrow> 'i \<Rightarrow> ('n, 'i, 'w) world \<Rightarrow> ('e + 'v) \<times> ('n, 'i, 'w) world" where
  "instantiate factory i s = (case factory (open (Some i) s) of (r, s') \<Rightarrow> (r, close s'))"

subsection \<open>What the scanners report\<close>





subsection \<open>Concrete producers, scanners and states\<close>


definition inner0 :: "(nat, nat, unit, string, nat) factory" where
  "inner0 s = (Inr 0, s)"

definition outer0 ::
  "(nat, nat, unit, string,
    (bool \<times> nat set \<times> nat option) \<times> (string + nat set) \<times> (bool \<times> nat set \<times> nat option)) factory"
  where
  "outer0 s =
     (let s1 = s\<lparr>calls := insert 1 (calls s)\<rparr> in
      case scan [] (Function inner0) s1 of
        (r, s') \<Rightarrow>
          (Inr ((contextOpen s1, calls s1, injector s1), r,
                (contextOpen s', calls s', injector s')), s'))"

text \<open>
  A scanner that reports node 2, one whose report depends on whether node 2 is already
  recorded, and one that throws.
\<close>

definition scannerA :: "(nat, nat, unit, string, nat) scanner" where
  "scannerA f s = (Inr {2}, s)"






text \<open>The closed context, and an open session with a recorded call and a resolver.\<close>

definition closed0 :: "(nat, nat) InjectionContext" where
  "closed0 = \<lparr>contextOpen = False, calls = {}, injector = None\<rparr>"

definition outer_session :: "(nat, nat) InjectionContext" where
  "outer_session = \<lparr>contextOpen = True, calls = {1}, injector = Some 7\<rparr>"


section \<open>Enabling diagnostics\<close>

text \<open>
  \<^verbatim>\<open>enableIllumaDiagnostics\<close> reads and writes the module-private
  \<^verbatim>\<open>state = { enabled: false }\<close> and registers two plugins through \<^verbatim>\<open>Illuma\<close>. The
  state it works on is that flag together with the two global registries it appends to.
  \<^verbatim>\<open>new DiagnosticsDefaultReporter()\<close> and the constant \<^verbatim>\<open>performanceDiagnostics\<close>
  are constructors of their own; every other module or middleware is a plugin of the
  user's.
\<close>

datatype 'd diagnostics_module = DiagnosticsDefaultReporter | Module 'd

datatype 'm middleware = performanceDiagnostics | Middleware 'm

record ('d, 'm) plugins =
  enabled :: bool
  diagnostics :: "'d diagnostics_module list"
  globalMiddlewares :: "'m middleware list"

text \<open>
  Modelled from the spec: \<^verbatim>\<open>Illuma.extendDiagnostics\<close> is not among the sources.
  Diagnostics modules are "registered" and the report is delivered to them "in
  registration order", and the plugin container's test empties \<^verbatim>\<open>_diagnostics\<close> by
  setting its length to 0: the registry is an array, and registering appends to it.
\<close>

definition extendDiagnostics ::
  "'d diagnostics_module \<Rightarrow> ('d, 'm) plugins \<Rightarrow> ('d, 'm) plugins" where
  "extendDiagnostics m s = s\<lparr>diagnostics := diagnostics s @ [m]\<rparr>"

text \<open>
  Modelled from the spec: \<^verbatim>\<open>Illuma.registerGlobalMiddleware\<close> is not among the sources.
  "Registering two middlewares M1 then M2 globally causes both to observe every
  instantiation, invoked in order M1 then M2": registering appends to the list of global
  middlewares.
\<close>

definition registerGlobalMiddleware ::
  "'m middleware \<Rightarrow> ('d, 'm) plugins \<Rightarrow> ('d, 'm) plugins" where
  "registerGlobalMiddleware m s = s\<lparr>globalMiddlewares := globalMiddlewares s @ [m]\<rparr>"

text \<open>
  \<^verbatim>\<open>enableIllumaDiagnostics\<close>: the guard, the assignment of the flag, and the two
  registrations in the order of the source.
\<close>

definition enableIllumaDiagnostics :: "('d, 'm) plugins \<Rightarrow> ('d, 'm) plugins" where
  "enableIllumaDiagnostics s =
     (if enabled s then s
      else registerGlobalMiddleware performanceDiagnostics
             (extendDiagnostics DiagnosticsDefaultReporter (s\<lparr>enabled := True\<rparr>)))"

text \<open>\<^verbatim>\<open>__resetDiagnosticsState\<close>, for tests only.\<close>

definition resetDiagnosticsState :: "('d, 'm) plugins \<Rightarrow> ('d, 'm) plugins" where
  "resetDiagnosticsState s = s\<lparr>enabled := False\<rparr>"

text \<open>The state of a program that registered one module of its own and has not enabled
  diagnostics yet.\<close>

definition fresh_plugins :: "(nat, nat) plugins" where
  "fresh_plugins = \<lparr>enabled = False, diagnostics = [Module 5], globalMiddlewares = []\<rparr>"


section \<open>Tokens\<close>

text \<open>
  Modelled from the spec: the values a container hands out. The value types of the
  container are missing from the sources. A value is data (a string, as a value provider
  gives or a factory returns), an object that a constructor or factory built (with the
  reference it got when it was built, the function that built it and the resolved
  dependencies it was built from), the array a multi-token resolves to, or the absent
  value of an optional dependency.
\<close>

datatype val = Data string | Instance nat nat "val list" | Many "val list" | Absent

text \<open>
  Modelled from the spec: what a run of a constructor or factory function does. A
  constructor builds a new object, and so does a factory that calls one; a factory may
  also return a value that exists already, as \<^verbatim>\<open>() => "test"\<close> does; and either may
  throw.
\<close>

datatype behaviour = Builds | Returns val | Throws string

text \<open>
  Modelled from the spec: a constructor or a factory function, which is not in the
  sources as a type. It has an identity, the dependency requests (token, optional) it
  makes when it runs, and its behaviour. It is declared together with the tokens, below:
  a token holds its default factory, and a function requests tokens.
\<close>

text \<open>
  \<^verbatim>\<open>NodeToken\<close> and \<^verbatim>\<open>MultiNodeToken\<close> extend \<^verbatim>\<open>NodeBase\<close>, which holds the
  \<^verbatim>\<open>name\<close> and the options \<^verbatim>\<open>opts\<close>, whose field is the token's default factory
  (\<^verbatim>\<open>NodeInjectable\<close> creates the token of a class with the factory that constructs the
  class); the two classes differ in the constant \<^verbatim>\<open>multi\<close> and in \<^verbatim>\<open>toString\<close>. A
  token is an object and is looked up by reference, so a token here carries its reference
  (a number) beside its name: two tokens with one name are two tokens. The requests of a
  default factory are tokens that exist when the token is created, so default factories
  alone form no cycle of requests; registered producers can.
\<close>

datatype token =
    NodeToken nat string "callable option"
  | MultiNodeToken nat string "callable option"
and callable =
    Callable (fid: nat) (requests: "(token \<times> bool) list") (body: behaviour)

fun multi :: "token \<Rightarrow> bool" where
  "multi (NodeToken r n ob) = False"
| "multi (MultiNodeToken r n ob) = True"

fun name :: "token \<Rightarrow> string" where
  "name (NodeToken r n ob) = n"
| "name (MultiNodeToken r n ob) = n"

fun opts :: "token \<Rightarrow> callable option" where
  "opts (NodeToken r n ob) = ob"
| "opts (MultiNodeToken r n ob) = ob"

fun toString :: "token \<Rightarrow> string" where
  "toString (NodeToken r n ob) = ''NodeToken['' @ n @ '']''"
| "toString (MultiNodeToken r n ob) = ''MultiNodeToken['' @ n @ '']''"


section \<open>Providers, nodes and the container\<close>

text \<open>
  The provider extractor, the container and the injector are not among the sources: only
  their tests are (\<^verbatim>\<open>extractProvider\<close>'s and \<^verbatim>\<open>injector.spec.ts\<close>). This section
  models them from the specification. It models one container, without a parent and with
  an empty middleware chain.
\<close>

text \<open>
  Modelled from the spec: the normalized producer of a registration, missing from the
  sources. A value provider is "a precomputed value, wrapped as a zero-argument
  producer", a factory or class provider runs the function, and an alias "resolves
  another token instead".
\<close>

datatype producer = Const val | Make callable | Redirect token

text \<open>
  Modelled from the spec: the error kinds of section 7 (\<^verbatim>\<open>CalledOutsideContext\<close> is the
  injection context's, above), an exception a producer throws during instantiation, and
  the refusal of a registration after bootstrap, for which the spec names no kind.
\<close>

datatype error =
  InvalidProvider | UnknownToken token | CircularDependency token | Thrown string | Frozen

text \<open>
  Modelled from the spec: the shapes of a registration, missing from the sources. A bare
  constructor comes with the per-class token the decorator attached to it; a bare
  function is not a constructor; an explicit registration object names its token and may
  carry each of \<^verbatim>\<open>value\<close>, \<^verbatim>\<open>factory\<close>, \<^verbatim>\<open>useClass\<close> and \<^verbatim>\<open>alias\<close>, in this
  order.
\<close>

datatype registration =
    BareConstructor token callable
  | BareFunction callable
  | Registration token "val option" "callable option" "callable option" "token option"

text \<open>
  Modelled from the spec: \<^verbatim>\<open>extractProvider\<close>, the provider normalizer, of which the
  sources have only the test. It accepts a bare constructor and a registration object
  "carrying exactly one of value, factory, useClass, alias", and "fails with an
  InvalidProvider error when zero or more than one producer variant is present, or when
  the shape is unrecognized". The second argument and the second result are the counter
  from which objects get their references: only running a producer advances it, and
  "Side effect: none - must not invoke the producer" is that the counter comes back as it
  went in.
\<close>

fun extractProvider :: "registration \<Rightarrow> nat \<Rightarrow> (error + producer) \<times> nat" where
  "extractProvider (BareConstructor t c) a = (Inr (Make c), a)"
| "extractProvider (BareFunction f) a = (Inl InvalidProvider, a)"
| "extractProvider (Registration t (Some v) None None None) a = (Inr (Const v), a)"
| "extractProvider (Registration t None (Some f) None None) a = (Inr (Make f), a)"
| "extractProvider (Registration t None None (Some c) None) a = (Inr (Make c), a)"
| "extractProvider (Registration t None None None (Some t')) a = (Inr (Redirect t'), a)"
| "extractProvider (Registration t v f c t') a = (Inl InvalidProvider, a)"

text \<open>
  The number of producer variants a registration carries, and the recognized shapes: a
  bare constructor, and a registration object with exactly one variant.
\<close>

fun variants :: "registration \<Rightarrow> nat" where
  "variants (Registration t v f c t') =
     (if v = None then 0 else 1) + (if f = None then 0 else 1) + (if c = None then 0 else 1)
       + (if t' = None then 0 else 1)"
| "variants r = 0"

fun recognized :: "registration \<Rightarrow> bool" where
  "recognized (BareConstructor t c) = True"
| "recognized (BareFunction f) = False"
| "recognized (Registration t v f c t') = (variants (Registration t v f c t') = 1)"

text \<open>
  Modelled from the spec: the token a registration is for, missing from the sources: the
  implicit per-class token of a bare constructor, the named token of a registration
  object.
\<close>

fun token_of :: "registration \<Rightarrow> token option" where
  "token_of (BareConstructor t c) = Some t"
| "token_of (BareFunction f) = None"
| "token_of (Registration t v f c t') = Some t"

text \<open>
  Modelled from the spec: the graph node, missing from the sources, with the attributes
  of section 3: "owning token, normalized producer function, the set of dependency tokens
  discovered for it (populated during scan), a cached instance (absent until first
  resolution), a used flag, and a resolving flag". \<open>scanned\<close> tells a registered node
  from a scanned one.
\<close>

record node =
  owner :: token
  producer :: producer
  scanned :: bool
  deps :: "(token \<times> bool) list"
  cached :: "val option"
  used :: bool
  resolving :: bool

text \<open>
  Modelled from the spec: the container, missing from the sources. Its node store is the
  list of its nodes in registration order (the nodes of a token are those it owns), a
  counter gives every object built its reference, and a flag tells whether bootstrap has
  completed.
\<close>

record container =
  nodes :: "node list"
  next_ref :: nat
  bootstrapped :: bool

text \<open>
  Modelled from the spec: a new container, missing from the sources: no node, no object
  built yet, not bootstrapped.
\<close>

definition new_container :: container where
  "new_container = \<lparr>nodes = [], next_ref = 0, bootstrapped = False\<rparr>"

text \<open>
  Modelled from the spec: the node that \<^verbatim>\<open>provide\<close> creates, missing from the sources:
  registered, with no dependency discovered, no instance and both flags false.
\<close>

definition new_node :: "token \<Rightarrow> producer \<Rightarrow> node" where
  "new_node t p = \<lparr>owner = t, producer = p, scanned = False, deps = [], cached = None,
                   used = False, resolving = False\<rparr>"

text \<open>
  Modelled from the spec: the lookup of a token in the node store, missing from the
  sources: the positions of the nodes the token owns, in registration order ("token
  reference identity is the sole key for lookup").
\<close>

definition ids_of :: "container \<Rightarrow> token \<Rightarrow> nat list" where
  "ids_of c t = filter (\<lambda>i. owner (nodes c ! i) = t) [0..<length (nodes c)]"

text \<open>
  Modelled from the spec: the write of a node's attributes, missing from the sources.
\<close>

definition update_node :: "nat \<Rightarrow> (node \<Rightarrow> node) \<Rightarrow> container \<Rightarrow> container" where
  "update_node i f c = c\<lparr>nodes := (nodes c)[i := f (nodes c ! i)]\<rparr>"

text \<open>
  Modelled from the spec: the used flag, "set true the first time something other than
  the bootstrap scan resolves it": a dependency request or a \<^verbatim>\<open>get\<close> for the token marks
  its nodes.
\<close>

definition mark_used :: "token \<Rightarrow> container \<Rightarrow> container" where
  "mark_used t c =
     c\<lparr>nodes := map (\<lambda>n. if owner n = t then n\<lparr>used := True\<rparr> else n) (nodes c)\<rparr>"

text \<open>
  Modelled from the spec: the insertion of a node into the store, missing from the
  sources: for a single token "last registration wins" (the node takes the place of the
  token's node), and "a multi-token accumulates one node per registration, in
  registration order".
\<close>

definition add_node :: "node \<Rightarrow> container \<Rightarrow> container" where
  "add_node n c =
     (if multi (owner n) then c\<lparr>nodes := nodes c @ [n]\<rparr>
      else (case ids_of c (owner n) of
              [] \<Rightarrow> c\<lparr>nodes := nodes c @ [n]\<rparr>
            | i # _ \<Rightarrow> c\<lparr>nodes := (nodes c)[i := n]\<rparr>))"

text \<open>
  Modelled from the spec: \<^verbatim>\<open>provide\<close>, missing from the sources. It "normalizes each
  registration, creates or overwrites the corresponding node", and after bootstrap "node
  insertion is forbidden".
\<close>

definition provide :: "registration \<Rightarrow> container \<Rightarrow> error + container" where
  "provide r c =
     (if bootstrapped c then Inl Frozen
      else (case (extractProvider r (next_ref c), token_of r) of
              ((Inr p, a), Some t) \<Rightarrow> Inr (add_node (new_node t p) (c\<lparr>next_ref := a\<rparr>))
            | ((Inl e, a), _) \<Rightarrow> Inl e
            | (_, None) \<Rightarrow> Inl InvalidProvider))"

text \<open>
  Modelled from the spec: \<^verbatim>\<open>provide\<close> of a list of registrations, missing from the
  sources: one after the other, and the first error ends it.
\<close>

fun provide_all :: "registration list \<Rightarrow> container \<Rightarrow> error + container" where
  "provide_all [] c = Inr c"
| "provide_all (r # rs) c = (case provide r c of Inl e \<Rightarrow> Inl e | Inr c' \<Rightarrow> provide_all rs c')"

text \<open>
  Modelled from the spec: the scan of a node's producer during bootstrap, missing from
  the sources: the tokens the producer requests when it is run, each once. A value
  requests nothing and an alias has the one edge to its target.
\<close>

fun scan_producer :: "producer \<Rightarrow> (token \<times> bool) list" where
  "scan_producer (Const v) = []"
| "scan_producer (Make f) = remdups (requests f)"
| "scan_producer (Redirect t) = [(t, False)]"

text \<open>
  Modelled from the spec: the scan phase for one node, missing from the sources: "for
  every Registered node not yet Scanned", the scan of its producer populates its
  dependency tokens.
\<close>

definition scan_node :: "node \<Rightarrow> node" where
  "scan_node n =
     (if scanned n then n else n\<lparr>scanned := True, deps := scan_producer (producer n)\<rparr>)"

text \<open>
  Modelled from the spec: the call of a producer with the resolved values of its
  dependencies, missing from the sources. A value producer returns its value and an alias
  the value of its target. A function that builds makes a new object, which takes the
  next reference; a function that returns a value it has returns that value and builds
  nothing; a function that throws throws.
\<close>

fun invoke :: "producer \<Rightarrow> val list \<Rightarrow> nat \<Rightarrow> (error + val) \<times> nat" where
  "invoke (Const v) args r = (Inr v, r)"
| "invoke (Redirect t) args r = (case args of [] \<Rightarrow> (Inr Absent, r) | v # _ \<Rightarrow> (Inr v, r))"
| "invoke (Make (Callable f reqs Builds)) args r = (Inr (Instance r f args), Suc r)"
| "invoke (Make (Callable f reqs (Returns v))) args r = (Inr v, r)"
| "invoke (Make (Callable f reqs (Throws msg))) args r = (Inl (Thrown msg), r)"

text \<open>
  The measure under which the resolution of a token through its default factory ends:
  the tokens a default factory requests are parts of the token that carries it.
\<close>

fun weight :: "(token \<times> bool) list \<Rightarrow> nat" where
  "weight [] = 0"
| "weight (d # ds) = Suc (Suc (size (fst d))) + weight ds"

lemma weight_remdups: "weight (remdups ds) \<le> weight ds"
  by (induction ds) auto

lemma weight_size: "weight ds = size_list (size_prod size (\<lambda>x. 0)) ds"
  by (induction ds) (auto simp: size_prod_simp)

lemma weight_default: "opts t = Some f \<Longrightarrow> weight (remdups (requests f)) < Suc (size t)"
  using weight_remdups[of "requests f"]
  by (cases t; cases f) (auto simp: weight_size)

text \<open>
  Modelled from the spec: the recursive resolution of section 4.4, missing from the
  sources. For a node: "if Resolved, return cached instance; if Resolving, this is a
  circular dependency; otherwise mark Resolving, recursively resolve each dependency
  token (unknown tokens fail with UnknownTokenError unless the original dependency
  request was marked optional, in which case resolution yields an absent value), call the
  producer, cache the result, mark Resolved, clear Resolving"; the flag is cleared on the
  failing exits too. "Multi-tokens resolve to an array built by resolving every node
  registered under that token, in registration order." A token is unknown when it has
  "no registered node and no default factory" (section 7): a token without a node that
  has a default factory is resolved by running that factory on its resolved dependencies,
  and as there is no node to hold the result, nothing is cached. The first argument
  bounds the depth of nodes being resolved; \<open>None\<close> is the bound reached.
\<close>

function resolve_token :: "nat \<Rightarrow> token \<Rightarrow> container \<Rightarrow> ((error + val) \<times> container) option"
and resolve_nodes :: "nat \<Rightarrow> nat list \<Rightarrow> container \<Rightarrow> ((error + val list) \<times> container) option"
and resolve_node :: "nat \<Rightarrow> nat \<Rightarrow> container \<Rightarrow> ((error + val) \<times> container) option"
and resolve_deps ::
  "nat \<Rightarrow> (token \<times> bool) list \<Rightarrow> container \<Rightarrow> ((error + val list) \<times> container) option"
where
  "resolve_token k t c =
     (case ids_of c t of
        [] \<Rightarrow>
          (case opts t of
             None \<Rightarrow> Some (Inl (UnknownToken t), c)
           | Some f \<Rightarrow>
               (case resolve_deps k (scan_producer (Make f)) c of
                  None \<Rightarrow> None
                | Some (Inl e, c') \<Rightarrow> Some (Inl e, c')
                | Some (Inr args, c') \<Rightarrow>
                    (case invoke (Make f) args (next_ref c') of
                       (r, a) \<Rightarrow> Some (r, c'\<lparr>next_ref := a\<rparr>))))
      | i # js \<Rightarrow>
          if multi t then
            (case resolve_nodes k (i # js) c of
               None \<Rightarrow> None
             | Some (Inl e, c') \<Rightarrow> Some (Inl e, c')
             | Some (Inr vs, c') \<Rightarrow> Some (Inr (Many vs), c'))
          else resolve_node k i c)"
| "resolve_nodes k [] c = Some (Inr [], c)"
| "resolve_nodes k (i # js) c =
     (case resolve_node k i c of
        None \<Rightarrow> None
      | Some (Inl e, c') \<Rightarrow> Some (Inl e, c')
      | Some (Inr v, c') \<Rightarrow>
          (case resolve_nodes k js c' of
             None \<Rightarrow> None
           | Some (Inl e, c'') \<Rightarrow> Some (Inl e, c'')
           | Some (Inr vs, c'') \<Rightarrow> Some (Inr (v # vs), c'')))"
| "resolve_node 0 i c = None"
| "resolve_node (Suc k) i c =
     (case cached (nodes c ! i) of
        Some v \<Rightarrow> Some (Inr v, c)
      | None \<Rightarrow>
          if resolving (nodes c ! i) then Some (Inl (CircularDependency (owner (nodes c ! i))), c)
          else
            (case resolve_deps k (deps (nodes c ! i))
                    (update_node i (\<lambda>n. n\<lparr>resolving := True\<rparr>) c) of
               None \<Rightarrow> None
             | Some (Inl e, c') \<Rightarrow> Some (Inl e, update_node i (\<lambda>n. n\<lparr>resolving := False\<rparr>) c')
             | Some (Inr args, c') \<Rightarrow>
                 (case invoke (producer (nodes c ! i)) args (next_ref c') of
                    (Inl e, r) \<Rightarrow>
                      Some (Inl e, update_node i (\<lambda>n. n\<lparr>resolving := False\<rparr>) (c'\<lparr>next_ref := r\<rparr>))
                  | (Inr v, r) \<Rightarrow>
                      Some (Inr v, update_node i (\<lambda>n. n\<lparr>cached := Some v, resolving := False\<rparr>)
                                     (c'\<lparr>next_ref := r\<rparr>)))))"
| "resolve_deps k [] c = Some (Inr [], c)"
| "resolve_deps k ((d, optional) # ds) c =
     (case (if ids_of c d = [] \<and> opts d = None \<and> optional then Some (Inr Absent, c)
            else resolve_token k d (mark_used d c)) of
        None \<Rightarrow> None
      | Some (Inl e, c') \<Rightarrow> Some (Inl e, c')
      | Some (Inr v, c') \<Rightarrow>
          (case resolve_deps k ds c' of
             None \<Rightarrow> None
           | Some (Inl e, c'') \<Rightarrow> Some (Inl e, c'')
           | Some (Inr vs, c'') \<Rightarrow> Some (Inr (v # vs), c'')))"
  by pat_completeness auto

termination
  apply (relation "inv_image (less_than <*lex*> less_than <*lex*> less_than)
    (\<lambda>x. case x of
        Inl (Inl (k, t, c)) \<Rightarrow> (k, Suc (size t), 0)
      | Inl (Inr (k, js, c)) \<Rightarrow> (k, 0, Suc (length js))
      | Inr (Inl (k, i, c)) \<Rightarrow> (k, 0, 0)
      | Inr (Inr (k, ds, c)) \<Rightarrow> (k, weight ds, 0))")
          apply (intro wf_inv_image wf_lex_prod wf_less_than)
         apply (simp_all add: weight_default)
  done

text \<open>
  Modelled from the spec: \<^verbatim>\<open>bootstrap\<close>, missing from the sources: it scans every node
  not yet scanned, then resolves every node in registration order, and fails with the
  first error. A chain of nodes that are resolving at one time has no node twice, so one
  more than the number of nodes bounds the depth.
\<close>

definition bootstrap :: "container \<Rightarrow> ((error + unit) \<times> container) option" where
  "bootstrap c =
     (case resolve_nodes (Suc (length (nodes c))) [0..<length (nodes c)]
             (c\<lparr>nodes := map scan_node (nodes c)\<rparr>) of
        None \<Rightarrow> None
      | Some (Inl e, c') \<Rightarrow> Some (Inl e, c')
      | Some (Inr vs, c') \<Rightarrow> Some (Inr (), c'\<lparr>bootstrapped := True\<rparr>))"

text \<open>
  Modelled from the spec: \<^verbatim>\<open>get\<close> of the container and of the injector handle, missing
  from the sources (the handle's \<^verbatim>\<open>get\<close> is to "resolve and return the cached/shared
  instance exactly as the container would").
\<close>

definition get :: "token \<Rightarrow> container \<Rightarrow> ((error + val) \<times> container) option" where
  "get t c = resolve_token (Suc (length (nodes c))) t (mark_used t c)"

text \<open>
  Modelled from the spec: \<^verbatim>\<open>produce\<close>, missing from the sources: "construct a new,
  uncached instance by scanning its dependencies on the fly and resolving them against
  the current container, without registering it as a node".
\<close>

definition produce :: "callable \<Rightarrow> container \<Rightarrow> ((error + val) \<times> container) option" where
  "produce f c =
     (case resolve_deps (Suc (length (nodes c))) (scan_producer (Make f)) c of
        None \<Rightarrow> None
      | Some (Inl e, c') \<Rightarrow> Some (Inl e, c')
      | Some (Inr args, c') \<Rightarrow>
          (case invoke (Make f) args (next_ref c') of (r, a) \<Rightarrow> Some (r, c'\<lparr>next_ref := a\<rparr>)))"

text \<open>A sequence of calls on a bootstrapped container, and the container after them.\<close>

datatype operation = Get token | Produce callable

fun after_operations :: "operation list \<Rightarrow> container \<Rightarrow> container" where
  "after_operations [] c = c"
| "after_operations (Get t # ops) c =
     (case get t c of Some (r, c') \<Rightarrow> after_operations ops c' | None \<Rightarrow> c)"
| "after_operations (Produce f # ops) c =
     (case produce f c of Some (r, c') \<Rightarrow> after_operations ops c' | None \<Rightarrow> c)"

subsection \<open>Notions for stating the properties\<close>

text \<open>
  A value is produced by a producer when some call of the producer returns it. A
  container is fully resolved when every node has its instance. The value of a token in a
  container is read off the cached instances of its nodes: the array of them, in
  registration order, for a multi-token. The dependencies of a function are available
  when each is registered, or is requested as optional and has no default factory.
\<close>

definition produced_by :: "producer \<Rightarrow> val \<Rightarrow> bool" where
  "produced_by p v = (\<exists>args r r'. invoke p args r = (Inr v, r'))"

definition all_resolved :: "container \<Rightarrow> bool" where
  "all_resolved c = (\<forall>i < length (nodes c). cached (nodes c ! i) \<noteq> None)"

definition cached_value :: "container \<Rightarrow> nat \<Rightarrow> val" where
  "cached_value c j = (case cached (nodes c ! j) of Some v \<Rightarrow> v | None \<Rightarrow> Absent)"

definition value_of :: "container \<Rightarrow> token \<Rightarrow> val" where
  "value_of c t =
     (case ids_of c t of
        [] \<Rightarrow> Absent
      | i # js \<Rightarrow> if multi t then Many (map (cached_value c) (i # js)) else cached_value c i)"



text \<open>
  Two relations between a container and a later state of it. \<open>ext\<close>: the nodes are the
  same in number, owner, producer and dependencies, no cached instance was lost or
  replaced, and an instance cached since was produced by its node's producer.
  \<open>same_cache\<close>: owners and cached instances are the same.
\<close>

definition ext :: "container \<Rightarrow> container \<Rightarrow> bool" where
  "ext c c' \<longleftrightarrow>
     length (nodes c') = length (nodes c) \<and> bootstrapped c' = bootstrapped c
     \<and> next_ref c \<le> next_ref c'
     \<and> (\<forall>i < length (nodes c).
           owner (nodes c' ! i) = owner (nodes c ! i)
         \<and> producer (nodes c' ! i) = producer (nodes c ! i)
         \<and> deps (nodes c' ! i) = deps (nodes c ! i)
         \<and> (\<forall>v. cached (nodes c ! i) = Some v \<longrightarrow> cached (nodes c' ! i) = Some v)
         \<and> (\<forall>v. cached (nodes c' ! i) = Some v \<longrightarrow>
                cached (nodes c ! i) = Some v \<or> produced_by (producer (nodes c ! i)) v))"

definition same_cache :: "container \<Rightarrow> container \<Rightarrow> bool" where
  "same_cache c c' \<longleftrightarrow>
     length (nodes c') = length (nodes c)
     \<and> (\<forall>i < length (nodes c).
           owner (nodes c' ! i) = owner (nodes c ! i)
         \<and> cached (nodes c' ! i) = cached (nodes c ! i))"

text \<open>
  The number of nodes that are neither resolved nor resolving: the nodes a resolution can
  still enter. \<open>keeps_flags\<close>: every node's resolving flag is what it was, and a node
  that was resolving has the cached instance, or none, that it had.
\<close>

definition free :: "container \<Rightarrow> nat" where
  "free c = length (filter (\<lambda>n. \<not> resolving n \<and> cached n = None) (nodes c))"

definition keeps_flags :: "container \<Rightarrow> container \<Rightarrow> bool" where
  "keeps_flags c c' \<longleftrightarrow>
     length (nodes c') = length (nodes c)
     \<and> (\<forall>i < length (nodes c).
           resolving (nodes c' ! i) = resolving (nodes c ! i)
         \<and> (resolving (nodes c ! i) \<longrightarrow> cached (nodes c' ! i) = cached (nodes c ! i)))"

text \<open>
  Where a cached instance comes from. \<open>reads\<close>: the nodes the value of a token is read
  from. A value is the resolved argument for a dependency when it is the container's
  value of the token, whose nodes are resolved, if the token is registered; the absent
  value if the token has neither a node nor a default factory; and a value its default
  factory produced if the token has no node and has a default factory. \<open>provenance\<close>:
  every cached instance is what its node's producer returned when it was called with the
  resolved arguments for the node's dependencies, at a reference the container has
  handed out. \<open>distinct_built\<close>: two nodes whose producers build have different
  instances. A container is sound when both hold.
\<close>

definition reads :: "container \<Rightarrow> token \<Rightarrow> nat list" where
  "reads c t = (case ids_of c t of [] \<Rightarrow> [] | i # js \<Rightarrow> if multi t then i # js else [i])"

definition token_cached :: "container \<Rightarrow> token \<Rightarrow> bool" where
  "token_cached c t = (\<forall>j \<in> set (reads c t). cached (nodes c ! j) \<noteq> None)"

definition resolved_arg :: "container \<Rightarrow> token \<times> bool \<Rightarrow> val \<Rightarrow> bool" where
  "resolved_arg c d a \<longleftrightarrow>
     (ids_of c (fst d) \<noteq> [] \<longrightarrow> a = value_of c (fst d) \<and> token_cached c (fst d))
     \<and> (ids_of c (fst d) = [] \<and> opts (fst d) = None \<longrightarrow> a = Absent)
     \<and> (\<forall>g. ids_of c (fst d) = [] \<and> opts (fst d) = Some g \<longrightarrow> produced_by (Make g) a)"

definition provenance :: "container \<Rightarrow> bool" where
  "provenance c \<longleftrightarrow>
     (\<forall>j < length (nodes c). \<forall>v. cached (nodes c ! j) = Some v \<longrightarrow>
        (\<exists>args r r'. invoke (producer (nodes c ! j)) args r = (Inr v, r') \<and> r' \<le> next_ref c
           \<and> list_all2 (resolved_arg c) (deps (nodes c ! j)) args))"

definition builds :: "producer \<Rightarrow> bool" where
  "builds p = (\<exists>f. p = Make f \<and> body f = Builds)"

definition distinct_built :: "container \<Rightarrow> bool" where
  "distinct_built c \<longleftrightarrow>
     (\<forall>i < length (nodes c). \<forall>j < length (nodes c).
        i \<noteq> j \<and> builds (producer (nodes c ! i)) \<and> builds (producer (nodes c ! j))
          \<and> cached (nodes c ! i) \<noteq> None
        \<longrightarrow> cached (nodes c ! i) \<noteq> cached (nodes c ! j))"

definition sound :: "container \<Rightarrow> bool" where
  "sound c \<longleftrightarrow> provenance c \<and> distinct_built c"

text \<open>
  The nodes of a token, the producer of a registration, and the producers registered for
  a token, in the order of the registrations.
\<close>

definition members :: "container \<Rightarrow> token \<Rightarrow> node list" where
  "members c t = filter (\<lambda>n. owner n = t) (nodes c)"

definition normalized :: "registration \<Rightarrow> error + producer" where
  "normalized r = fst (extractProvider r 0)"

fun producers_for :: "token \<Rightarrow> registration list \<Rightarrow> producer list" where
  "producers_for t [] = []"
| "producers_for t (r # rs) =
     (case (token_of r, normalized r) of
        (Some u, Inr p) \<Rightarrow> if u = t then p # producers_for t rs else producers_for t rs
      | _ \<Rightarrow> producers_for t rs)"

subsection \<open>A concrete container\<close>

text \<open>
  Three tokens with providers and two without. The logger is a decorated class: its
  token carries the class as default factory, and the class needs the configuration. The
  first plugin needs the logger. The runtime class is decorated too, is never
  registered, and needs the logger. The multi-token's first provider is registered first
  of all and its second last. One factory returns a string it has.
\<close>

definition CONFIG :: token where "CONFIG = NodeToken 1 ''CONFIG'' None"
definition Logger :: callable where "Logger = Callable 10 [(CONFIG, False)] Builds"
definition LOGGER :: token where "LOGGER = NodeToken 2 ''_Logger'' (Some Logger)"
definition PLUGINS :: token where "PLUGINS = MultiNodeToken 3 ''PLUGINS'' None"
definition PluginA :: callable where "PluginA = Callable 11 [(LOGGER, False)] Builds"
definition PluginB :: callable where "PluginB = Callable 12 [] Builds"
definition RuntimeClass :: callable where "RuntimeClass = Callable 13 [(LOGGER, False)] Builds"
definition RUNTIME :: token where "RUNTIME = NodeToken 4 ''_RuntimeClass'' (Some RuntimeClass)"
definition MISSING :: token where "MISSING = NodeToken 5 ''MISSING'' None"
definition testFactory :: callable where "testFactory = Callable 14 [] (Returns (Data ''test''))"

definition regs0 :: "registration list" where
  "regs0 = [Registration PLUGINS None None (Some PluginA) None,
            BareConstructor LOGGER Logger,
            Registration CONFIG (Some (Data ''x'')) None None None,
            Registration PLUGINS None (Some PluginB) None None]"

definition registered0 :: container where
  "registered0 = \<lparr>nodes =
     [new_node PLUGINS (Make PluginA), new_node LOGGER (Make Logger),
      new_node CONFIG (Const (Data ''x'')), new_node PLUGINS (Make PluginB)],
     next_ref = 0, bootstrapped = False\<rparr>"

definition booted_node :: "token \<Rightarrow> callable \<Rightarrow> val \<Rightarrow> bool \<Rightarrow> node" where
  "booted_node t f v u = \<lparr>owner = t, producer = Make f, scanned = True, deps = requests f,
     cached = Some v, used = u, resolving = False\<rparr>"

definition logger0 :: val where "logger0 = Instance 0 10 [Data ''x'']"
definition pluginA0 :: val where "pluginA0 = Instance 1 11 [logger0]"
definition pluginB0 :: val where "pluginB0 = Instance 2 12 []"

definition booted0 :: container where
  "booted0 = \<lparr>nodes =
     [booted_node PLUGINS PluginA pluginA0 False,
      booted_node LOGGER Logger logger0 True,
      \<lparr>owner = CONFIG, producer = Const (Data ''x''), scanned = True, deps = [],
        cached = Some (Data ''x''), used = True, resolving = False\<rparr>,
      booted_node PLUGINS PluginB pluginB0 False],
     next_ref = 3, bootstrapped = True\<rparr>"


section \<open>Properties of the injection context\<close>

lemma open_fields:
  "contextOpen (open i s) = True" "calls (open i s) = {}" "injector (open i s) = i"
  by (simp_all add: open_def)

lemma close_fields:
  "contextOpen (close s) = False" "calls (close s) = {}" "injector (close s) = None"
  by (simp_all add: close_def)

text \<open>
  Claim C3. For every factory and resolver, \<^verbatim>\<open>instantiate\<close> runs the factory on the
  state in which a session is open with that resolver installed and no call recorded,
  and returns exactly what the factory returned or threw; whichever of the two happened,
  the state afterwards is the one the factory left with the session closed: flag false,
  recorded calls empty, no resolver.
\<close>

theorem instantiate_result_and_closure:
  fixes factory :: "('n, 'i, 'w, 'e, 'v) factory"
  shows "contextOpen (open (Some i) s) \<and> calls (open (Some i) s) = {}
           \<and> injector (open (Some i) s) = Some i
         \<and> fst (instantiate factory i s) = fst (factory (open (Some i) s))
         \<and> snd (instantiate factory i s) = close (snd (factory (open (Some i) s)))
         \<and> contextOpen (snd (instantiate factory i s)) = False
         \<and> calls (snd (instantiate factory i s)) = {}
         \<and> injector (snd (instantiate factory i s)) = None"
  by (simp add: instantiate_def open_fields close_fields split: prod.split)

text \<open>
  Claim C9. For an argument that is not a function, \<^verbatim>\<open>scan\<close> returns the empty set
  and the whole program state is the one it was called in, whatever scanners are
  registered: no session is opened, the recorded calls and the resolver are untouched,
  and no scanner runs (a scanner that ran could throw or change the state).
\<close>

theorem scan_not_function:
  fixes scanners :: "('n, 'i, 'w, 'e, 'v) scanner list"
  shows "scan scanners (NotFunction x) s = (Inr {}, s)"
  by (simp add: scan_def)

subsection \<open>The scanner loop\<close>











subsection \<open>Sessions inside sessions\<close>

text \<open>
  Claim C2, as stated, fails. \<^verbatim>\<open>instantiate\<close> opens a session with resolver 7; the
  producer records node 1 and then scans another producer. The inner scan is not
  rejected (it returns the empty set), and when it has completed the producer finds the
  flag false, no recorded call and no resolver, where the outer session had the flag
  true, node 1 recorded and resolver 7.
\<close>

theorem nested_session_counterexample:
  "fst (instantiate outer0 7 closed0) = Inr ((True, {1}, Some 7), Inr {}, (False, {}, None))"
  by (simp add: instantiate_def outer0_def scan_def inner0_def closed0_def open_def close_def)

text \<open>
  Claim C2, amended. The session is one flat state, not a stack, and opening is never
  refused: \<^verbatim>\<open>open\<close> overwrites flag, recorded calls and resolver whatever they were,
  and \<^verbatim>\<open>close\<close> resets them. So when an \<^verbatim>\<open>instantiate\<close>, or a \<^verbatim>\<open>scan\<close> that
  returns, runs while a session is open, the outer session is not restored: afterwards
  the flag is false, no call is recorded and no resolver is installed.
\<close>

theorem session_is_flat:
  fixes f :: "('n, 'i, 'w, 'e, 'v) factory" and g :: "('n, 'i, 'w, 'e, 'u) factory"
    and scanners :: "('n, 'i, 'w, 'e, 'u) scanner list"
  assumes "contextOpen s"
  shows "open i s = open i (close s)
       \<and> \<not> contextOpen (snd (instantiate f j s)) \<and> calls (snd (instantiate f j s)) = {}
       \<and> injector (snd (instantiate f j s)) = None \<and> snd (instantiate f j s) \<noteq> s
       \<and> (\<forall>T. fst (scan scanners (Function g) s) = Inr T \<longrightarrow>
            \<not> contextOpen (snd (scan scanners (Function g) s))
            \<and> calls (snd (scan scanners (Function g) s)) = {}
            \<and> injector (snd (scan scanners (Function g) s)) = None
            \<and> snd (scan scanners (Function g) s) \<noteq> s)"
proof -
  have o: "open i s = open i (close s)"
    by (simp add: open_def close_def)
  have i1: "snd (instantiate f j s) = close (snd (f (open (Some j) s)))"
    by (simp add: instantiate_def split: prod.split)
  have i2: "snd (instantiate f j s) \<noteq> s"
  proof
    assume "snd (instantiate f j s) = s"
    then have "contextOpen (snd (instantiate f j s)) = contextOpen s" by simp
    with assms show False by (simp add: i1 close_fields)
  qed
  have sc: "\<not> contextOpen (snd (scan scanners (Function g) s))
            \<and> calls (snd (scan scanners (Function g) s)) = {}
            \<and> injector (snd (scan scanners (Function g) s)) = None
            \<and> snd (scan scanners (Function g) s) \<noteq> s"
    if r: "fst (scan scanners (Function g) s) = Inr T" for T
  proof -
    obtain r' s2 where l: "scan_loop scanners g (snd (g (open None s))) = (r', s2)"
      by (cases "scan_loop scanners g (snd (g (open None s)))")
    with r have "snd (scan scanners (Function g) s) = close s2"
      by (cases r') (simp_all add: scan_def Let_def)
    moreover from assms have "close s2 \<noteq> s"
      using close_fields(1)[of s2] by auto
    ultimately show ?thesis by (simp add: close_fields)
  qed
  from o i1 i2 sc show ?thesis by (simp add: close_fields)
qed

text \<open>
  Witness for the amended C2: in a session that is open with resolver 7 and node 1
  recorded, an \<^verbatim>\<open>instantiate\<close> and a \<^verbatim>\<open>scan\<close> both end in the closed context.
\<close>

theorem session_is_flat_witness:
  "snd (instantiate inner0 8 outer_session) = closed0
     \<and> scan [scannerA] (Function inner0) outer_session = (Inr {2}, closed0)
     \<and> closed0 \<noteq> outer_session"
proof -
  have "contextOpen outer_session" by (simp add: outer_session_def)
  from session_is_flat[OF this, of "Some 8" inner0 8 "[scannerA]" inner0]
  show ?thesis
    by (simp add: instantiate_def scan_def inner0_def scannerA_def outer_session_def
        closed0_def open_def close_def)
qed

section \<open>Properties of enabling diagnostics\<close>

lemma enable_when_enabled: "enabled s \<Longrightarrow> enableIllumaDiagnostics s = s"
  by (simp add: enableIllumaDiagnostics_def)

lemma enabled_after_enable: "enabled (enableIllumaDiagnostics s)"
  by (simp add: enableIllumaDiagnostics_def extendDiagnostics_def registerGlobalMiddleware_def)

lemma enable_repeated:
  "(enableIllumaDiagnostics ^^ Suc n) s = enableIllumaDiagnostics s"
proof (induction n)
  case 0
  show ?case by simp
next
  case (Suc n)
  have "(enableIllumaDiagnostics ^^ Suc (Suc n)) s
          = enableIllumaDiagnostics ((enableIllumaDiagnostics ^^ Suc n) s)" by simp
  also have "\<dots> = enableIllumaDiagnostics (enableIllumaDiagnostics s)"
    by (simp only: Suc.IH)
  also have "\<dots> = enableIllumaDiagnostics s"
    by (rule enable_when_enabled) (rule enabled_after_enable)
  finally show ?case .
qed

text \<open>
  Claim C10. Starting from the state in which diagnostics are not enabled yet, the first
  call of \<^verbatim>\<open>enableIllumaDiagnostics\<close> sets the flag and appends the default reporter
  to the diagnostics modules and the performance middleware to the global middlewares; a
  call after it changes nothing, so after any number \<open>n + 1\<close> of calls the state is the
  one after the first call, with exactly one module and one middleware more than at the
  start.
\<close>

theorem enableIllumaDiagnostics_idempotent:
  fixes s :: "('d, 'm) plugins"
  assumes "\<not> enabled s"
  shows "enableIllumaDiagnostics s =
           s\<lparr>enabled := True, diagnostics := diagnostics s @ [DiagnosticsDefaultReporter],
             globalMiddlewares := globalMiddlewares s @ [performanceDiagnostics]\<rparr>
       \<and> enableIllumaDiagnostics (enableIllumaDiagnostics s) = enableIllumaDiagnostics s
       \<and> (enableIllumaDiagnostics ^^ Suc n) s = enableIllumaDiagnostics s
       \<and> length (diagnostics ((enableIllumaDiagnostics ^^ Suc n) s)) = Suc (length (diagnostics s))
       \<and> length (globalMiddlewares ((enableIllumaDiagnostics ^^ Suc n) s))
           = Suc (length (globalMiddlewares s))"
proof -
  have first: "enableIllumaDiagnostics s =
           s\<lparr>enabled := True, diagnostics := diagnostics s @ [DiagnosticsDefaultReporter],
             globalMiddlewares := globalMiddlewares s @ [performanceDiagnostics]\<rparr>"
    using assms
    by (simp add: enableIllumaDiagnostics_def extendDiagnostics_def registerGlobalMiddleware_def)
  have again: "enableIllumaDiagnostics (enableIllumaDiagnostics s) = enableIllumaDiagnostics s"
    by (rule enable_when_enabled) (rule enabled_after_enable)
  have many: "(enableIllumaDiagnostics ^^ Suc n) s = enableIllumaDiagnostics s"
    by (rule enable_repeated)
  have "length (diagnostics (enableIllumaDiagnostics s)) = Suc (length (diagnostics s))"
       "length (globalMiddlewares (enableIllumaDiagnostics s)) = Suc (length (globalMiddlewares s))"
    by (simp_all add: first)
  with first again many show ?thesis by (simp del: funpow.simps)
qed

text \<open>Witness for C10: three calls register the reporter and the middleware once.\<close>

theorem enableIllumaDiagnostics_idempotent_witness:
  "(enableIllumaDiagnostics ^^ 3) fresh_plugins =
     \<lparr>enabled = True, diagnostics = [Module 5, DiagnosticsDefaultReporter],
      globalMiddlewares = [performanceDiagnostics]\<rparr>"
proof -
  have "\<not> enabled fresh_plugins" by (simp add: fresh_plugins_def)
  from enableIllumaDiagnostics_idempotent[OF this, of 2]
  show ?thesis by (simp add: fresh_plugins_def numeral_3_eq_3 del: funpow.simps)
qed


section \<open>Properties of the container\<close>

subsection \<open>Resolution keeps the nodes and their instances\<close>

lemma nth_update_cases: "xs[i := x] ! j = (if i = j \<and> i < length xs then x else xs ! j)"
  by (cases "i < length xs") (simp_all add: nth_list_update list_update_beyond)

lemma ext_refl: "ext c c"
  by (simp add: ext_def)

lemma ext_trans: "ext a b \<Longrightarrow> ext b c \<Longrightarrow> ext a c"
  unfolding ext_def
  apply (intro conjI allI impI)
         apply simp
        apply simp
       apply simp
      apply simp
     apply simp
    apply simp
   apply simp
  apply (elim conjE)
  subgoal for i v
    apply (drule_tac x=i in spec)+
    apply simp
    apply blast
    done
  done

lemma ext_mark_used: "ext c (mark_used t c)"
  by (simp add: ext_def mark_used_def)

lemma ext_resolving: "ext c (update_node i (\<lambda>n. n\<lparr>resolving := b\<rparr>) c)"
  by (simp add: ext_def update_node_def nth_update_cases)

lemma ext_next_ref: "next_ref c \<le> r \<Longrightarrow> ext c (c\<lparr>next_ref := r\<rparr>)"
  by (simp add: ext_def)

lemma ext_cache_after:
  assumes "ext c c'" "cached (nodes c ! i) = None" "produced_by (producer (nodes c ! i)) v"
  shows "ext c (update_node i (\<lambda>n. n\<lparr>cached := Some v, resolving := False\<rparr>) c')"
  using assms unfolding ext_def update_node_def
  by (simp add: nth_update_cases)

lemma invoke_next_ref: "invoke p args r = (x, r') \<Longrightarrow> r \<le> r'"
  by (induction p args r rule: invoke.induct) (auto split: list.splits)

lemma resolve_ext:
  shows "resolve_token k t c = Some (r1, c1) \<Longrightarrow> ext c c1"
    and "resolve_nodes k js c = Some (r2, c2) \<Longrightarrow> ext c c2"
    and "resolve_node k i c = Some (r3, c3) \<Longrightarrow> ext c c3"
    and "resolve_deps k ds c = Some (r4, c4) \<Longrightarrow> ext c c4"
proof (induction k t c and k js c and k i c and k ds c
    arbitrary: r1 c1 and r2 c2 and r3 c3 and r4 c4
    rule: resolve_token_resolve_nodes_resolve_node_resolve_deps.induct)
  case (1 k t c)
  show ?case
  proof (cases "ids_of c t")
    case Nil
    show ?thesis
    proof (cases "opts t")
      case None
      with "1.prems" Nil show ?thesis by (simp add: ext_refl)
    next
      case (Some f)
      from "1.prems" Nil Some obtain r' c' where
        a: "resolve_deps k (scan_producer (Make f)) c = Some (r', c')"
        by (auto split: option.splits)
      have e1: "ext c c'" using "1.IH"(1)[OF Nil Some a] .
      show ?thesis
      proof (cases r')
        case (Inl e)
        with "1.prems" Nil Some a have "c1 = c'" by simp
        with e1 show ?thesis by simp
      next
        case (Inr args)
        obtain x r where inv: "invoke (Make f) args (next_ref c') = (x, r)"
          by (cases "invoke (Make f) args (next_ref c')")
        then have le: "next_ref c' \<le> r" by (rule invoke_next_ref)
        from "1.prems" Nil Some a Inr inv have "c1 = c'\<lparr>next_ref := r\<rparr>" by simp
        with e1 ext_next_ref[OF le] show ?thesis by (auto intro: ext_trans)
      qed
    qed
  next
    case (Cons i js)
    show ?thesis
    proof (cases "multi t")
      case True
      with "1.prems" Cons obtain r' where "resolve_nodes k (i # js) c = Some (r', c1)"
        by (auto split: option.splits sum.splits)
      with "1.IH"(2)[OF Cons True] show ?thesis by blast
    next
      case False
      with "1.prems" Cons have "resolve_node k i c = Some (r1, c1)" by simp
      with "1.IH"(3)[OF Cons False] show ?thesis by blast
    qed
  qed
next
  case (2 k c)
  then show ?case by (simp add: ext_refl)
next
  case (3 k i js c)
  from "3.prems" obtain r' c' where a: "resolve_node k i c = Some (r', c')"
    by (auto split: option.splits)
  then have e1: "ext c c'" by (rule "3.IH"(1))
  show ?case
  proof (cases r')
    case (Inl e)
    with "3.prems" a have "c2 = c'" by simp
    with e1 show ?thesis by simp
  next
    case (Inr v)
    with "3.prems" a obtain r'' where "resolve_nodes k js c' = Some (r'', c2)"
      by (auto split: option.splits sum.splits)
    from "3.IH"(2)[OF a refl Inr this] e1 show ?thesis by (rule ext_trans[rotated])
  qed
next
  case (4 i c)
  then show ?case by simp
next
  case (5 k i c)
  let ?n = "nodes c ! i"
  show ?case
  proof (cases "cached ?n")
    case (Some v)
    with "5.prems" show ?thesis by (simp add: ext_refl)
  next
    case None
    show ?thesis
    proof (cases "resolving ?n")
      case True
      with "5.prems" None show ?thesis by (simp add: ext_refl)
    next
      case False
      let ?c0 = "update_node i (\<lambda>n. n\<lparr>resolving := True\<rparr>) c"
      from "5.prems" None False obtain r' c' where
        a: "resolve_deps k (deps ?n) ?c0 = Some (r', c')"
        by (auto split: option.splits)
      have e0: "ext c ?c0" by (rule ext_resolving)
      have e1: "ext ?c0 c'" using "5.IH"[OF None False a] .
      have e01: "ext c c'" using e0 e1 by (rule ext_trans)
      show ?thesis
      proof (cases r')
        case (Inl e)
        with "5.prems" None False a
        have "c3 = update_node i (\<lambda>n. n\<lparr>resolving := False\<rparr>) c'" by simp
        with e01 ext_resolving[of c' i False] show ?thesis by (auto intro: ext_trans)
      next
        case (Inr args)
        obtain x r where inv: "invoke (producer ?n) args (next_ref c') = (x, r)"
          by (cases "invoke (producer ?n) args (next_ref c')")
        then have le: "next_ref c' \<le> r" by (rule invoke_next_ref)
        let ?c'' = "c'\<lparr>next_ref := r\<rparr>"
        have e2: "ext c ?c''" using e01 ext_next_ref[OF le] by (rule ext_trans)
        show ?thesis
        proof (cases x)
          case (Inl e)
          with "5.prems" None False a Inr inv
          have "c3 = update_node i (\<lambda>n. n\<lparr>resolving := False\<rparr>) ?c''" by simp
          with e2 ext_resolving[of ?c'' i False] show ?thesis by (auto intro: ext_trans)
        next
          case (Inr v)
          with "5.prems" None False a \<open>r' = Inr args\<close> inv
          have c3: "c3 = update_node i (\<lambda>n. n\<lparr>cached := Some v, resolving := False\<rparr>) ?c''"
            by simp
          have pb: "produced_by (producer ?n) v"
            unfolding produced_by_def using inv Inr by blast
          show ?thesis
            unfolding c3 using e2 None pb by (rule ext_cache_after)
        qed
      qed
    qed
  qed
next
  case (6 k c)
  then show ?case by (simp add: ext_refl)
next
  case (7 k d optional ds c)
  let ?first = "if ids_of c d = [] \<and> opts d = None \<and> optional then Some (Inr Absent, c)
            else resolve_token k d (mark_used d c)"
  from "7.prems" obtain r' c' where a: "?first = Some (r', c')"
    by (auto split: option.splits)
  have e1: "ext c c'"
  proof (cases "ids_of c d = [] \<and> opts d = None \<and> optional")
    case True
    with a show ?thesis by (simp add: ext_refl)
  next
    case False
    with a have "resolve_token k d (mark_used d c) = Some (r', c')" by simp
    from "7.IH"(1)[OF False this] ext_mark_used[of c d] show ?thesis by (auto intro: ext_trans)
  qed
  show ?case
  proof (cases r')
    case (Inl e)
    with "7.prems" a have "c4 = c'" by (simp split: if_splits)
    with e1 show ?thesis by simp
  next
    case (Inr v)
    with "7.prems" a obtain r'' where "resolve_deps k ds c' = Some (r'', c4)"
      by (auto split: option.splits sum.splits if_splits)
    from "7.IH"(2)[OF a refl Inr this] e1 show ?thesis by (rule ext_trans[rotated])
  qed
qed

lemma ids_of_bound: "j \<in> set (ids_of c t) \<Longrightarrow> j < length (nodes c)"
  by (simp add: ids_of_def)

subsection \<open>The resolving flag is released, and the depth bound is enough\<close>

text \<open>
  A resolution that returns, with a value or with an error, leaves every resolving flag as
  it found it. Each level of the recursion marks one more node, so a bound above the
  number of nodes that can still be entered is never reached: \<^verbatim>\<open>bootstrap\<close>,
  \<^verbatim>\<open>get\<close> and \<^verbatim>\<open>produce\<close> always return.
\<close>

lemma keeps_flags_refl: "keeps_flags c c"
  by (simp add: keeps_flags_def)

lemma keeps_flags_trans: "keeps_flags a b \<Longrightarrow> keeps_flags b c \<Longrightarrow> keeps_flags a c"
  unfolding keeps_flags_def by auto

lemma keeps_flags_mark_used: "keeps_flags c (mark_used t c)"
  by (simp add: keeps_flags_def mark_used_def)

lemma keeps_flags_restore:
  assumes "keeps_flags (update_node i (\<lambda>n. n\<lparr>resolving := True\<rparr>) c) c'"
    and "\<not> resolving (nodes c ! i)"
    and "resolving (f (nodes c' ! i)) = False"
    and "nodes c'' = nodes c'"
  shows "keeps_flags c (update_node i f c'')"
  using assms unfolding keeps_flags_def update_node_def
  by (auto simp: nth_update_cases)

lemma resolve_keeps_flags:
  shows "resolve_token k t c = Some (r1, c1) \<Longrightarrow> keeps_flags c c1"
    and "resolve_nodes k js c = Some (r2, c2) \<Longrightarrow> keeps_flags c c2"
    and "resolve_node k i c = Some (r3, c3) \<Longrightarrow> keeps_flags c c3"
    and "resolve_deps k ds c = Some (r4, c4) \<Longrightarrow> keeps_flags c c4"
proof (induction k t c and k js c and k i c and k ds c
    arbitrary: r1 c1 and r2 c2 and r3 c3 and r4 c4
    rule: resolve_token_resolve_nodes_resolve_node_resolve_deps.induct)
  case (1 k t c)
  show ?case
  proof (cases "ids_of c t")
    case Nil
    show ?thesis
    proof (cases "opts t")
      case None
      with "1.prems" Nil show ?thesis by (simp add: keeps_flags_refl)
    next
      case (Some f)
      from "1.prems" Nil Some obtain r' c' where
        a: "resolve_deps k (scan_producer (Make f)) c = Some (r', c')"
        by (auto split: option.splits)
      have e1: "keeps_flags c c'" using "1.IH"(1)[OF Nil Some a] .
      from "1.prems" Nil Some a have "nodes c1 = nodes c'"
        by (cases r') (auto split: prod.splits)
      with e1 show ?thesis by (simp add: keeps_flags_def)
    qed
  next
    case (Cons i js)
    show ?thesis
    proof (cases "multi t")
      case True
      with "1.prems" Cons obtain r' where "resolve_nodes k (i # js) c = Some (r', c1)"
        by (auto split: option.splits sum.splits)
      with "1.IH"(2)[OF Cons True] show ?thesis by blast
    next
      case False
      with "1.prems" Cons have "resolve_node k i c = Some (r1, c1)" by simp
      with "1.IH"(3)[OF Cons False] show ?thesis by blast
    qed
  qed
next
  case (2 k c)
  then show ?case by (simp add: keeps_flags_refl)
next
  case (3 k i js c)
  from "3.prems" obtain r' c' where a: "resolve_node k i c = Some (r', c')"
    by (auto split: option.splits)
  then have e1: "keeps_flags c c'" by (rule "3.IH"(1))
  show ?case
  proof (cases r')
    case (Inl e)
    with "3.prems" a have "c2 = c'" by simp
    with e1 show ?thesis by simp
  next
    case (Inr v)
    with "3.prems" a obtain r'' where "resolve_nodes k js c' = Some (r'', c2)"
      by (auto split: option.splits sum.splits)
    from "3.IH"(2)[OF a refl Inr this] e1 show ?thesis by (rule keeps_flags_trans[rotated])
  qed
next
  case (4 i c)
  then show ?case by simp
next
  case (5 k i c)
  let ?n = "nodes c ! i"
  show ?case
  proof (cases "cached ?n")
    case (Some v)
    with "5.prems" show ?thesis by (simp add: keeps_flags_refl)
  next
    case None
    show ?thesis
    proof (cases "resolving ?n")
      case True
      with "5.prems" None show ?thesis by (simp add: keeps_flags_refl)
    next
      case False
      let ?c0 = "update_node i (\<lambda>n. n\<lparr>resolving := True\<rparr>) c"
      from "5.prems" None False obtain r' c' where
        a: "resolve_deps k (deps ?n) ?c0 = Some (r', c')"
        by (auto split: option.splits)
      have e1: "keeps_flags ?c0 c'" using "5.IH"[OF None False a] .
      show ?thesis
      proof (cases r')
        case (Inl e)
        with "5.prems" None False a
        have "c3 = update_node i (\<lambda>n. n\<lparr>resolving := False\<rparr>) c'" by simp
        then show ?thesis using keeps_flags_restore[OF e1 False, of "\<lambda>n. n\<lparr>resolving := False\<rparr>" c']
          by simp
      next
        case (Inr args)
        obtain x r where inv: "invoke (producer ?n) args (next_ref c') = (x, r)"
          by (cases "invoke (producer ?n) args (next_ref c')")
        show ?thesis
        proof (cases x)
          case (Inl e)
          with "5.prems" None False a Inr inv
          have "c3 = update_node i (\<lambda>n. n\<lparr>resolving := False\<rparr>) (c'\<lparr>next_ref := r\<rparr>)" by simp
          then show ?thesis
            using keeps_flags_restore[OF e1 False, of "\<lambda>n. n\<lparr>resolving := False\<rparr>" "c'\<lparr>next_ref := r\<rparr>"]
            by simp
        next
          case (Inr v)
          with "5.prems" None False a \<open>r' = Inr args\<close> inv
          have "c3 = update_node i (\<lambda>n. n\<lparr>cached := Some v, resolving := False\<rparr>)
                       (c'\<lparr>next_ref := r\<rparr>)"
            by simp
          then show ?thesis
            using keeps_flags_restore[OF e1 False,
                of "\<lambda>n. n\<lparr>cached := Some v, resolving := False\<rparr>" "c'\<lparr>next_ref := r\<rparr>"]
            by simp
        qed
      qed
    qed
  qed
next
  case (6 k c)
  then show ?case by (simp add: keeps_flags_refl)
next
  case (7 k d optional ds c)
  let ?first = "if ids_of c d = [] \<and> opts d = None \<and> optional then Some (Inr Absent, c)
            else resolve_token k d (mark_used d c)"
  from "7.prems" obtain r' c' where a: "?first = Some (r', c')"
    by (auto split: option.splits)
  have e1: "keeps_flags c c'"
  proof (cases "ids_of c d = [] \<and> opts d = None \<and> optional")
    case True
    with a show ?thesis by (simp add: keeps_flags_refl)
  next
    case False
    with a have "resolve_token k d (mark_used d c) = Some (r', c')" by simp
    from "7.IH"(1)[OF False this] keeps_flags_mark_used[of c d] show ?thesis
      by (auto intro: keeps_flags_trans)
  qed
  show ?case
  proof (cases r')
    case (Inl e)
    with "7.prems" a have "c4 = c'" by (simp split: if_splits)
    with e1 show ?thesis by simp
  next
    case (Inr v)
    with "7.prems" a obtain r'' where "resolve_deps k ds c' = Some (r'', c4)"
      by (auto split: option.splits sum.splits if_splits)
    from "7.IH"(2)[OF a refl Inr this] e1 show ?thesis by (rule keeps_flags_trans[rotated])
  qed
qed


lemma filter_length_le:
  "length xs = length ys \<Longrightarrow> (\<forall>i < length xs. P (xs ! i) \<longrightarrow> Q (ys ! i))
     \<Longrightarrow> length (filter P xs) \<le> length (filter Q ys)"
proof (induction xs ys rule: list_induct2)
  case Nil
  show ?case by simp
next
  case (Cons x xs y ys)
  from Cons.prems have h: "P x \<longrightarrow> Q y" by auto
  from Cons.prems have "\<forall>i < length xs. P (xs ! i) \<longrightarrow> Q (ys ! i)" by auto
  with Cons.IH have "length (filter P xs) \<le> length (filter Q ys)" by simp
  with h show ?case by auto
qed

lemma filter_length_update_less:
  "i < length xs \<Longrightarrow> P (xs ! i) \<Longrightarrow> \<not> P x \<Longrightarrow> length (filter P (xs[i := x])) < length (filter P xs)"
proof (induction xs arbitrary: i)
  case Nil
  then show ?case by simp
next
  case (Cons y ys)
  then show ?case by (cases i) auto
qed

lemma free_le:
  assumes "ext c c'" "keeps_flags c c'"
  shows "free c' \<le> free c"
  unfolding free_def
proof (rule filter_length_le)
  show "length (nodes c') = length (nodes c)" using assms(1) by (simp add: ext_def)
  show "\<forall>i < length (nodes c'). \<not> resolving (nodes c' ! i) \<and> cached (nodes c' ! i) = None
          \<longrightarrow> \<not> resolving (nodes c ! i) \<and> cached (nodes c ! i) = None"
    using assms unfolding ext_def keeps_flags_def by (metis option.exhaust)
qed

lemma free_mark_resolving:
  assumes "i < length (nodes c)" "\<not> resolving (nodes c ! i)" "cached (nodes c ! i) = None"
  shows "free (update_node i (\<lambda>n. n\<lparr>resolving := True\<rparr>) c) < free c"
  unfolding free_def update_node_def using assms
  by (simp add: filter_length_update_less)

lemma filter_length_map:
  "(\<And>x. P (f x) = P x) \<Longrightarrow> length (filter P (map f xs)) = length (filter P xs)"
  by (induction xs) auto

lemma free_mark_used: "free (mark_used t c) = free c"
proof -
  have n: "nodes (mark_used t c) = map (\<lambda>n. if owner n = t then n\<lparr>used := True\<rparr> else n) (nodes c)"
    by (simp add: mark_used_def)
  show ?thesis unfolding free_def n by (rule filter_length_map) simp
qed

lemma free_le_length: "free c \<le> length (nodes c)"
  by (simp add: free_def)

lemma resolve_enough_fuel:
  shows "free c < k \<Longrightarrow> resolve_token k t c \<noteq> None"
    and "free c < k \<Longrightarrow> \<forall>j \<in> set js. j < length (nodes c) \<Longrightarrow> resolve_nodes k js c \<noteq> None"
    and "free c < k \<Longrightarrow> i < length (nodes c) \<Longrightarrow> resolve_node k i c \<noteq> None"
    and "free c < k \<Longrightarrow> resolve_deps k ds c \<noteq> None"
proof (induction k t c and k js c and k i c and k ds c
    rule: resolve_token_resolve_nodes_resolve_node_resolve_deps.induct)
  case (1 k t c)
  show ?case
  proof (cases "ids_of c t")
    case Nil
    show ?thesis
    proof (cases "opts t")
      case None
      with Nil show ?thesis by simp
    next
      case (Some f)
      from "1.IH"(1)[OF Nil Some "1.prems"] Nil Some show ?thesis
        by (auto split: option.splits sum.splits prod.splits)
    qed
  next
    case (Cons i js)
    have valid: "\<forall>j \<in> set (i # js). j < length (nodes c)"
      using ids_of_bound[of _ c t] Cons by auto
    show ?thesis
    proof (cases "multi t")
      case True
      from "1.IH"(2)[OF Cons True "1.prems" valid] Cons True show ?thesis
        by (auto split: option.splits sum.splits)
    next
      case False
      from valid have "i < length (nodes c)" by simp
      from "1.IH"(3)[OF Cons False "1.prems" this] Cons False show ?thesis by simp
    qed
  qed
next
  case (2 k c)
  show ?case by simp
next
  case (3 k i js c)
  from "3.prems"(2) have i: "i < length (nodes c)" by simp
  from "3.IH"(1)[OF "3.prems"(1) i] obtain r' c' where a: "resolve_node k i c = Some (r', c')"
    by auto
  show ?case
  proof (cases r')
    case (Inl e)
    with a show ?thesis by simp
  next
    case (Inr v)
    have e: "ext c c'" using a by (rule resolve_ext(3))
    have f: "free c' < k"
      using free_le[OF e resolve_keeps_flags(3)[OF a]] "3.prems"(1) by simp
    have "\<forall>j \<in> set js. j < length (nodes c')" using "3.prems"(2) e by (simp add: ext_def)
    from "3.IH"(2)[OF a refl Inr f this] a Inr show ?thesis
      by (auto split: option.splits sum.splits)
  qed
next
  case (4 i c)
  then show ?case by simp
next
  case (5 k i c)
  let ?n = "nodes c ! i"
  show ?case
  proof (cases "cached ?n")
    case (Some v)
    then show ?thesis by simp
  next
    case None
    show ?thesis
    proof (cases "resolving ?n")
      case True
      with None show ?thesis by simp
    next
      case False
      have "free (update_node i (\<lambda>n. n\<lparr>resolving := True\<rparr>) c) < k"
        using free_mark_resolving[OF "5.prems"(2) False None] "5.prems"(1) by simp
      from "5.IH"[OF None False this] None False show ?thesis
        by (auto split: option.splits sum.splits prod.splits)
    qed
  qed
next
  case (6 k c)
  show ?case by simp
next
  case (7 k d optional ds c)
  let ?first = "if ids_of c d = [] \<and> opts d = None \<and> optional then Some (Inr Absent, c)
            else resolve_token k d (mark_used d c)"
  have "?first \<noteq> None"
  proof (cases "ids_of c d = [] \<and> opts d = None \<and> optional")
    case True
    then show ?thesis by simp
  next
    case False
    have "free (mark_used d c) < k" using "7.prems" by (simp add: free_mark_used)
    from "7.IH"(1)[OF False this] False show ?thesis by simp
  qed
  then obtain r' c' where a: "?first = Some (r', c')" by auto
  show ?case
  proof (cases r')
    case (Inl e)
    with a show ?thesis by (simp split: if_splits)
  next
    case (Inr v)
    have "free c' \<le> free c"
    proof (cases "ids_of c d = [] \<and> opts d = None \<and> optional")
      case True
      with a show ?thesis by simp
    next
      case False
      with a have r: "resolve_token k d (mark_used d c) = Some (r', c')" by simp
      from free_le[OF resolve_ext(1)[OF r] resolve_keeps_flags(1)[OF r]] show ?thesis
        by (simp add: free_mark_used)
    qed
    with "7.prems" have "free c' < k" by simp
    from "7.IH"(2)[OF a refl Inr this] a Inr show ?thesis
      by (auto split: option.splits sum.splits if_splits)
  qed
qed

lemma bootstrap_returns: "bootstrap c \<noteq> None"
proof -
  let ?s = "c\<lparr>nodes := map scan_node (nodes c)\<rparr>"
  have "free ?s < Suc (length (nodes c))" using free_le_length[of ?s] by simp
  moreover have "\<forall>j \<in> set [0..<length (nodes c)]. j < length (nodes ?s)" by simp
  ultimately have "resolve_nodes (Suc (length (nodes c))) [0..<length (nodes c)] ?s \<noteq> None"
    by (rule resolve_enough_fuel(2))
  then show ?thesis by (auto simp: bootstrap_def split: option.splits sum.splits)
qed

lemma get_returns: "get t c \<noteq> None"
proof -
  have "free (mark_used t c) < Suc (length (nodes c))"
    using free_le_length[of c] by (simp add: free_mark_used)
  then show ?thesis unfolding get_def by (rule resolve_enough_fuel(1))
qed

lemma produce_returns: "produce f c \<noteq> None"
proof -
  have "free c < Suc (length (nodes c))" using free_le_length[of c] by simp
  then have "resolve_deps (Suc (length (nodes c))) (scan_producer (Make f)) c \<noteq> None"
    by (rule resolve_enough_fuel(4))
  then show ?thesis by (auto simp: produce_def split: option.splits sum.splits prod.splits)
qed

subsection \<open>Reading a resolved container\<close>

lemma same_cache_refl: "same_cache c c"
  by (simp add: same_cache_def)

lemma same_cache_trans: "same_cache a b \<Longrightarrow> same_cache b c \<Longrightarrow> same_cache a c"
  by (simp add: same_cache_def)

lemma same_cache_mark_used: "same_cache c (mark_used t c)"
  by (simp add: same_cache_def mark_used_def)

lemma same_cache_ids: "same_cache c c' \<Longrightarrow> ids_of c' t = ids_of c t"
  unfolding same_cache_def ids_of_def by (auto intro: filter_cong)

lemma same_cache_all_resolved: "same_cache c c' \<Longrightarrow> all_resolved c \<Longrightarrow> all_resolved c'"
  by (simp add: same_cache_def all_resolved_def)

lemma same_cache_value_of:
  assumes "same_cache c c'"
  shows "value_of c' t = value_of c t"
proof -
  have ids: "ids_of c' t = ids_of c t" using assms by (rule same_cache_ids)
  have each: "cached_value c' j = cached_value c j" if "j \<in> set (ids_of c t)" for j
    using assms ids_of_bound[OF that] by (simp add: same_cache_def cached_value_def)
  show ?thesis
  proof (cases "ids_of c t")
    case Nil
    with ids show ?thesis by (simp add: value_of_def)
  next
    case (Cons i js)
    with each have "map (cached_value c') (i # js) = map (cached_value c) (i # js)"
      by (intro map_cong) simp_all
    with Cons ids show ?thesis
      by (simp add: value_of_def)
  qed
qed


lemma resolve_node_cached:
  "cached (nodes c ! i) = Some v \<Longrightarrow> resolve_node (Suc k) i c = Some (Inr v, c)"
  by simp

lemma resolve_nodes_cached:
  assumes "\<forall>j \<in> set js. cached (nodes c ! j) \<noteq> None"
  shows "resolve_nodes (Suc k) js c = Some (Inr (map (cached_value c) js), c)"
  using assms
proof (induction js)
  case Nil
  show ?case by simp
next
  case (Cons j js)
  then obtain v where v: "cached (nodes c ! j) = Some v" by auto
  from Cons have "resolve_nodes (Suc k) js c = Some (Inr (map (cached_value c) js), c)"
    by simp
  with v show ?case by (simp add: cached_value_def)
qed


lemma resolve_token_cached:
  assumes "all_resolved c" "ids_of c t \<noteq> []"
  shows "resolve_token (Suc k) t c = Some (Inr (value_of c t), c)"
proof -
  obtain i js where ids: "ids_of c t = i # js" using assms(2) by (cases "ids_of c t") auto
  have all: "\<forall>j \<in> set (i # js). cached (nodes c ! j) \<noteq> None"
    using assms(1) ids_of_bound[of _ c t] ids by (auto simp: all_resolved_def)
  show ?thesis
  proof (cases "multi t")
    case True
    with ids resolve_nodes_cached[OF all, of k] show ?thesis
      by (simp add: value_of_def)
  next
    case False
    from all obtain v where "cached (nodes c ! i) = Some v" by auto
    with False ids show ?thesis by (simp add: value_of_def cached_value_def)
  qed
qed

lemma get_resolved:
  assumes "all_resolved c" "ids_of c t \<noteq> []"
  shows "get t c = Some (Inr (value_of c t), mark_used t c)"
proof -
  have s: "same_cache c (mark_used t c)" by (rule same_cache_mark_used)
  have "resolve_token (Suc (length (nodes c))) t (mark_used t c)
          = Some (Inr (value_of (mark_used t c) t), mark_used t c)"
    using same_cache_all_resolved[OF s assms(1)] assms(2) same_cache_ids[OF s]
    by (intro resolve_token_cached) simp_all
  then show ?thesis by (simp add: get_def same_cache_value_of[OF s])
qed



lemma resolve_node_caches:
  assumes "resolve_node k i c = Some (Inr v, c')" "i < length (nodes c)"
  shows "cached (nodes c' ! i) = Some v"
proof (cases k)
  case 0
  with assms show ?thesis by simp
next
  case (Suc k')
  show ?thesis
  proof (cases "cached (nodes c ! i)")
    case (Some w)
    with assms Suc show ?thesis by simp
  next
    case None
    let ?c0 = "update_node i (\<lambda>n. n\<lparr>resolving := True\<rparr>) c"
    from assms(1) Suc None have nr: "\<not> resolving (nodes c ! i)"
      by (auto split: if_splits)
    with assms(1) Suc None obtain r2 c2 where
      d: "resolve_deps k' (deps (nodes c ! i)) ?c0 = Some (r2, c2)"
      by (auto split: option.splits)
    have "ext ?c0 c2" using d by (rule resolve_ext(4))
    then have len: "length (nodes c2) = length (nodes c)"
      by (simp add: ext_def update_node_def)
    from assms(1) Suc None nr d obtain args where r2: "r2 = Inr args"
      by (cases r2) auto
    obtain x r where inv: "invoke (producer (nodes c ! i)) args (next_ref c2) = (x, r)"
      by (cases "invoke (producer (nodes c ! i)) args (next_ref c2)")
    with assms(1) Suc None nr d r2 have x: "x = Inr v"
      and c': "c' = update_node i (\<lambda>n. n\<lparr>cached := Some v, resolving := False\<rparr>) (c2\<lparr>next_ref := r\<rparr>)"
      by (cases x; simp)+
    show ?thesis unfolding c' using len assms(2) by (simp add: update_node_def)
  qed
qed

lemma resolve_nodes_caches:
  assumes "resolve_nodes k js c = Some (Inr vs, c')" "\<forall>j \<in> set js. j < length (nodes c)"
  shows "map (\<lambda>j. cached (nodes c' ! j)) js = map Some vs"
  using assms
proof (induction js arbitrary: c vs)
  case Nil
  then show ?case by simp
next
  case (Cons j js)
  from Cons.prems(1) obtain r1 c1 where a: "resolve_node k j c = Some (r1, c1)"
    by (auto split: option.splits)
  with Cons.prems(1) obtain v where r1: "r1 = Inr v" by (cases r1) auto
  with Cons.prems(1) a obtain r2 where b: "resolve_nodes k js c1 = Some (r2, c')"
    by (auto split: option.splits sum.splits)
  with Cons.prems(1) a r1 obtain vs' where r2: "r2 = Inr vs'" and vs: "vs = v # vs'"
    by (cases r2) auto
  have e1: "ext c c1" using a by (rule resolve_ext(3))
  have e2: "ext c1 c'" using b by (rule resolve_ext(2))
  have j: "j < length (nodes c)" using Cons.prems(2) by simp
  have "cached (nodes c1 ! j) = Some v"
    using a[unfolded r1] j by (rule resolve_node_caches)
  moreover have "j < length (nodes c1)" using e1 j by (simp add: ext_def)
  ultimately have cj: "cached (nodes c' ! j) = Some v" using e2 by (simp add: ext_def)
  have "\<forall>j \<in> set js. j < length (nodes c1)" using Cons.prems(2) e1 by (simp add: ext_def)
  from Cons.IH[OF b[unfolded r2] this] cj vs show ?case by simp
qed

lemma bootstrap_result:
  assumes "bootstrap c0 = Some (Inr u, c)"
  shows "all_resolved c" and "length (nodes c) = length (nodes c0)"
    and "\<forall>i < length (nodes c0). owner (nodes c ! i) = owner (nodes c0 ! i)
           \<and> producer (nodes c ! i) = producer (nodes c0 ! i)
           \<and> (\<forall>v. cached (nodes c ! i) = Some v \<longrightarrow>
                 cached (nodes c0 ! i) = Some v \<or> produced_by (producer (nodes c0 ! i)) v)"
proof -
  let ?s = "c0\<lparr>nodes := map scan_node (nodes c0)\<rparr>"
  let ?n = "length (nodes c0)"
  from assms obtain vs c2 where
    r: "resolve_nodes (Suc ?n) [0..<?n] ?s = Some (Inr vs, c2)" and c: "c = c2\<lparr>bootstrapped := True\<rparr>"
    by (auto simp: bootstrap_def split: option.splits sum.splits)
  have e: "ext ?s c2" using r by (rule resolve_ext(2))
  have "map (\<lambda>j. cached (nodes c2 ! j)) [0..<?n] = map Some vs"
    using r by (rule resolve_nodes_caches) simp
  then have "\<forall>j < ?n. cached (nodes c2 ! j) \<noteq> None"
    by (metis (no_types, lifting) add.left_neutral diff_zero length_map length_upt nth_map nth_upt
        option.distinct(1))
  moreover have len: "length (nodes c2) = ?n" using e by (simp add: ext_def)
  ultimately show "all_resolved c" by (simp add: all_resolved_def c)
  show "length (nodes c) = ?n" using len c by simp
  have scan: "owner (scan_node n) = owner n \<and> producer (scan_node n) = producer n
                \<and> cached (scan_node n) = cached n" for n
    by (simp add: scan_node_def)
  show "\<forall>i < length (nodes c0). owner (nodes c ! i) = owner (nodes c0 ! i)
           \<and> producer (nodes c ! i) = producer (nodes c0 ! i)
           \<and> (\<forall>v. cached (nodes c ! i) = Some v \<longrightarrow>
                 cached (nodes c0 ! i) = Some v \<or> produced_by (producer (nodes c0 ! i)) v)"
    using e scan unfolding ext_def c by simp
qed

lemma bootstrap_ids:
  assumes "bootstrap c0 = Some (Inr u, c)"
  shows "ids_of c t = ids_of c0 t"
  using bootstrap_result(2,3)[OF assms] unfolding ids_of_def by (auto intro: filter_cong)

lemma ext_same_cache:
  assumes "all_resolved c" "ext c c'"
  shows "same_cache c c'"
  unfolding same_cache_def
proof (intro conjI allI impI)
  show "length (nodes c') = length (nodes c)" using assms(2) by (simp add: ext_def)
next
  fix i assume i: "i < length (nodes c)"
  then show "owner (nodes c' ! i) = owner (nodes c ! i)" using assms(2) by (simp add: ext_def)
  from i assms(1) obtain v where "cached (nodes c ! i) = Some v"
    by (auto simp: all_resolved_def)
  with i assms(2) show "cached (nodes c' ! i) = cached (nodes c ! i)" by (simp add: ext_def)
qed



lemma produce_same_cache:
  assumes "all_resolved c" "produce f c = Some (r, c')"
  shows "same_cache c c'"
proof -
  from assms(2) obtain r1 c1 where
    d: "resolve_deps (Suc (length (nodes c))) (scan_producer (Make f)) c = Some (r1, c1)"
    by (auto simp: produce_def split: option.splits)
  have e: "ext c c1" using d by (rule resolve_ext(4))
  have "ext c c'"
  proof (cases r1)
    case (Inl e')
    with assms(2) d e show ?thesis by (simp add: produce_def)
  next
    case (Inr args)
    obtain x a where inv: "invoke (Make f) args (next_ref c1) = (x, a)"
      by (cases "invoke (Make f) args (next_ref c1)")
    then have le: "next_ref c1 \<le> a" by (rule invoke_next_ref)
    from assms(2) d Inr inv have "c' = c1\<lparr>next_ref := a\<rparr>" by (simp add: produce_def)
    with e ext_next_ref[OF le] show ?thesis by (auto intro: ext_trans)
  qed
  with assms(1) show ?thesis by (rule ext_same_cache)
qed

lemma get_same_cache:
  assumes "all_resolved c" "get t c = Some (r, c')"
  shows "same_cache c c'"
proof -
  from assms(2) have "ext (mark_used t c) c'" unfolding get_def by (rule resolve_ext(1))
  with ext_mark_used[of c t] have "ext c c'" by (rule ext_trans)
  with assms(1) show ?thesis by (rule ext_same_cache)
qed

lemma after_operations_same_cache:
  assumes "all_resolved c"
  shows "same_cache c (after_operations ops c)"
  using assms
proof (induction ops arbitrary: c)
  case Nil
  show ?case by (simp add: same_cache_refl)
next
  case (Cons op ops)
  show ?case
  proof (cases op)
    case (Get t)
    show ?thesis
    proof (cases "get t c")
      case None
      with Get show ?thesis by (simp add: same_cache_refl)
    next
      case (Some p)
      obtain r c' where p: "p = (r, c')" by (cases p)
      have s: "same_cache c c'" using Cons.prems Some[unfolded p] by (rule get_same_cache)
      from Cons.IH[OF same_cache_all_resolved[OF s Cons.prems]] s Get Some p
      show ?thesis by (auto intro: same_cache_trans)
    qed
  next
    case (Produce f)
    show ?thesis
    proof (cases "produce f c")
      case None
      with Produce show ?thesis by (simp add: same_cache_refl)
    next
      case (Some p)
      obtain r c' where p: "p = (r, c')" by (cases p)
      have s: "same_cache c c'" using Cons.prems Some[unfolded p] by (rule produce_same_cache)
      from Cons.IH[OF same_cache_all_resolved[OF s Cons.prems]] s Produce Some p
      show ?thesis by (auto intro: same_cache_trans)
    qed
  qed
qed

text \<open>
  Claim C5. In a container whose bootstrap has succeeded, a token that is single-valued
  and registered has one cached instance, the one its node got when it was resolved; a
  \<^verbatim>\<open>get\<close> for the token returns that instance, a second \<^verbatim>\<open>get\<close> returns it again,
  and so does a \<^verbatim>\<open>get\<close> after any sequence of \<^verbatim>\<open>get\<close> and \<^verbatim>\<open>produce\<close> calls on
  the container: the instance is not computed again and not dropped.
\<close>

theorem singleton_per_container:
  assumes "bootstrap c0 = Some (Inr (), c)" and "\<not> multi t" and "ids_of c0 t \<noteq> []"
  shows "\<exists>i js v. ids_of c t = i # js \<and> cached (nodes c ! i) = Some v
           \<and> get t c = Some (Inr v, mark_used t c)
           \<and> get t (mark_used t c) = Some (Inr v, mark_used t (mark_used t c))
           \<and> (\<forall>ops. get t (after_operations ops c)
                       = Some (Inr v, mark_used t (after_operations ops c)))"
proof -
  have ar: "all_resolved c" using assms(1) by (rule bootstrap_result(1))
  have ids: "ids_of c t \<noteq> []" using assms(3) bootstrap_ids[OF assms(1)] by simp
  then obtain i js where ij: "ids_of c t = i # js" by (cases "ids_of c t") auto
  then have "i < length (nodes c)" using ids_of_bound[of i c t] by simp
  with ar obtain v where v: "cached (nodes c ! i) = Some v" by (auto simp: all_resolved_def)
  have val: "value_of c t = v" using ij v assms(2) by (simp add: value_of_def cached_value_def)
  have any: "get t c' = Some (Inr v, mark_used t c')" if s: "same_cache c c'" for c'
    using get_resolved[OF same_cache_all_resolved[OF s ar], of t] ids
      same_cache_ids[OF s] same_cache_value_of[OF s] val by simp
  have "get t c = Some (Inr v, mark_used t c)" using any[OF same_cache_refl] .
  moreover have "get t (mark_used t c) = Some (Inr v, mark_used t (mark_used t c))"
    using any[OF same_cache_mark_used] .
  moreover have "get t (after_operations ops c) = Some (Inr v, mark_used t (after_operations ops c))"
    for ops using any[OF after_operations_same_cache[OF ar]] .
  ultimately show ?thesis using ij v by blast
qed

subsection \<open>Producing outside the node store\<close>

lemma invoke_builds:
  "body f = Builds \<Longrightarrow> invoke (Make f) args r = (Inr (Instance r (fid f) args), Suc r)"
  by (cases f) simp





subsection \<open>Where the cached instances come from\<close>

text \<open>
  Resolution keeps a container sound: an instance is cached only as the result of calling
  its node's producer with the resolved values of the node's dependencies, and an object
  built for a node has a reference that no object built before it has.
\<close>

lemma ext_ids: "ext c c' \<Longrightarrow> ids_of c' t = ids_of c t"
  unfolding ext_def ids_of_def by (auto intro: filter_cong)

lemma reads_ids: "j \<in> set (reads c t) \<Longrightarrow> j \<in> set (ids_of c t)"
  by (cases "ids_of c t") (auto simp: reads_def split: if_splits)

lemma value_of_reads:
  assumes "ids_of c' t = ids_of c t"
    and "\<forall>j \<in> set (reads c t). cached (nodes c' ! j) = cached (nodes c ! j)"
  shows "value_of c' t = value_of c t"
proof (cases "ids_of c t")
  case Nil
  with assms(1) show ?thesis by (simp add: value_of_def)
next
  case (Cons i js)
  show ?thesis
  proof (cases "multi t")
    case True
    with Cons assms(2) have "map (cached_value c') (i # js) = map (cached_value c) (i # js)"
      by (intro map_cong) (auto simp: reads_def cached_value_def)
    with Cons True assms(1) show ?thesis by (simp add: value_of_def)
  next
    case False
    with Cons assms show ?thesis by (simp add: value_of_def reads_def cached_value_def)
  qed
qed

lemma ext_resolved_arg:
  assumes "ext c c'" "resolved_arg c d a"
  shows "resolved_arg c' d a"
proof -
  have ids: "ids_of c' t = ids_of c t" for t using assms(1) by (rule ext_ids)
  have rd: "reads c' t = reads c t" for t by (simp add: reads_def ids)
  have keep: "cached (nodes c' ! j) = cached (nodes c ! j)"
    if "token_cached c t" "j \<in> set (reads c t)" for t j
  proof -
    from that(2) have "j < length (nodes c)" using reads_ids ids_of_bound by blast
    moreover from that obtain v where "cached (nodes c ! j) = Some v"
      by (auto simp: token_cached_def)
    ultimately show ?thesis using assms(1) by (simp add: ext_def)
  qed
  have "value_of c' t = value_of c t \<and> token_cached c' t" if tc: "token_cached c t" for t
  proof
    show "value_of c' t = value_of c t"
      using ids keep[OF tc] by (intro value_of_reads) simp_all
    show "token_cached c' t"
      using tc keep[OF tc] by (simp add: token_cached_def rd)
  qed
  with assms(2) show ?thesis by (auto simp: resolved_arg_def ids)
qed

lemma sound_nodes:
  assumes "nodes c' = nodes c" "next_ref c' = next_ref c"
  shows "sound c' = sound c"
proof -
  have ids: "ids_of c' t = ids_of c t" for t
    by (simp add: ids_of_def assms(1))
  have vo: "value_of c' t = value_of c t" for t
    by (rule value_of_reads) (simp_all add: ids assms(1))
  have tc: "token_cached c' t = token_cached c t" for t
    by (simp add: token_cached_def reads_def ids assms(1))
  have "resolved_arg c' d a = resolved_arg c d a" for d a
    by (simp add: resolved_arg_def ids vo tc)
  then have "resolved_arg c' = resolved_arg c" by (intro HOL.ext)
  with assms show ?thesis
    by (simp add: sound_def provenance_def distinct_built_def)
qed

lemma sound_frame:
  assumes "sound c" "ext c c'"
    and "\<forall>i < length (nodes c). cached (nodes c' ! i) = cached (nodes c ! i)"
  shows "sound c'"
proof -
  have len: "length (nodes c') = length (nodes c)" using assms(2) by (simp add: ext_def)
  have p: "provenance c'"
    unfolding provenance_def
  proof (intro allI impI)
    fix j v assume j: "j < length (nodes c')" and v: "cached (nodes c' ! j) = Some v"
    from j len have jc: "j < length (nodes c)" by simp
    with v assms(3) have "cached (nodes c ! j) = Some v" by simp
    with assms(1) jc obtain args r r' where
      a: "invoke (producer (nodes c ! j)) args r = (Inr v, r')" "r' \<le> next_ref c"
         "list_all2 (resolved_arg c) (deps (nodes c ! j)) args"
      unfolding sound_def provenance_def by blast
    have "list_all2 (resolved_arg c') (deps (nodes c ! j)) args"
      using a(3) by (rule list_all2_mono) (rule ext_resolved_arg[OF assms(2)])
    moreover have "r' \<le> next_ref c'" using a(2) assms(2) by (simp add: ext_def)
    moreover have "producer (nodes c' ! j) = producer (nodes c ! j)"
      "deps (nodes c' ! j) = deps (nodes c ! j)" using assms(2) jc by (simp_all add: ext_def)
    ultimately show "\<exists>args r r'. invoke (producer (nodes c' ! j)) args r = (Inr v, r')
        \<and> r' \<le> next_ref c' \<and> list_all2 (resolved_arg c') (deps (nodes c' ! j)) args"
      using a(1) by auto
  qed
  have d: "distinct_built c'"
    using assms unfolding sound_def distinct_built_def ext_def by simp
  from p d show ?thesis by (simp add: sound_def)
qed


lemma sound_cache:
  assumes "sound c" "i < length (nodes c)" "cached (nodes c ! i) = None"
    and "invoke (producer (nodes c ! i)) args (next_ref c) = (Inr v, r)"
    and "list_all2 (resolved_arg c) (deps (nodes c ! i)) args"
  shows "sound (update_node i (\<lambda>n. n\<lparr>cached := Some v, resolving := False\<rparr>) (c\<lparr>next_ref := r\<rparr>))"
proof -
  let ?c3 = "update_node i (\<lambda>n. n\<lparr>cached := Some v, resolving := False\<rparr>) (c\<lparr>next_ref := r\<rparr>)"
  have le: "next_ref c \<le> r" using assms(4) by (rule invoke_next_ref)
  have pb: "produced_by (producer (nodes c ! i)) v"
    unfolding produced_by_def using assms(4) by blast
  have e: "ext c ?c3" using ext_next_ref[OF le] assms(3) pb by (rule ext_cache_after)
  have len: "length (nodes ?c3) = length (nodes c)" by (simp add: update_node_def)
  have nr: "next_ref ?c3 = r" by (simp add: update_node_def)
  have at_i: "cached (nodes ?c3 ! i) = Some v" "producer (nodes ?c3 ! i) = producer (nodes c ! i)"
    "deps (nodes ?c3 ! i) = deps (nodes c ! i)"
    using assms(2) by (simp_all add: update_node_def)
  have other: "nodes ?c3 ! j = nodes c ! j" if "j \<noteq> i" for j
    using that by (simp add: update_node_def)
  have old: "\<exists>args r0 r'. invoke (producer (nodes c ! j)) args r0 = (Inr w, r')
      \<and> r' \<le> next_ref c \<and> list_all2 (resolved_arg c) (deps (nodes c ! j)) args"
    if "j < length (nodes c)" "cached (nodes c ! j) = Some w" for j w
    using assms(1) that unfolding sound_def provenance_def by blast
  have p: "provenance ?c3"
    unfolding provenance_def
  proof (intro allI impI)
    fix j w assume j: "j < length (nodes ?c3)" and w: "cached (nodes ?c3 ! j) = Some w"
    show "\<exists>args r0 r'. invoke (producer (nodes ?c3 ! j)) args r0 = (Inr w, r')
        \<and> r' \<le> next_ref ?c3 \<and> list_all2 (resolved_arg ?c3) (deps (nodes ?c3 ! j)) args"
    proof (cases "j = i")
      case True
      have "list_all2 (resolved_arg ?c3) (deps (nodes c ! i)) args"
        using assms(5) by (rule list_all2_mono) (rule ext_resolved_arg[OF e])
      moreover from True w at_i(1) have "w = v" by simp
      ultimately show ?thesis
        unfolding True at_i(2,3) nr using assms(4) by blast
    next
      case False
      from j len have jc: "j < length (nodes c)" by simp
      from w other[OF False] have "cached (nodes c ! j) = Some w" by simp
      from old[OF jc this] obtain args0 r0 r' where
        a: "invoke (producer (nodes c ! j)) args0 r0 = (Inr w, r')" "r' \<le> next_ref c"
           "list_all2 (resolved_arg c) (deps (nodes c ! j)) args0" by blast
      have "list_all2 (resolved_arg ?c3) (deps (nodes c ! j)) args0"
        using a(3) by (rule list_all2_mono) (rule ext_resolved_arg[OF e])
      moreover have "r' \<le> r" using a(2) le by simp
      ultimately show ?thesis
        unfolding other[OF False] nr using a(1) by blast
    qed
  qed
  have new_old: "Some v \<noteq> cached (nodes c ! j)"
    if j: "j < length (nodes c)" and bi: "builds (producer (nodes c ! i))"
      and bj: "builds (producer (nodes c ! j))" for j
  proof (cases "cached (nodes c ! j)")
    case None
    then show ?thesis by simp
  next
    case (Some w)
    from old[OF j Some] obtain args0 r0 r' where
      a: "invoke (producer (nodes c ! j)) args0 r0 = (Inr w, r')" "r' \<le> next_ref c" by blast
    from bj obtain g where g: "producer (nodes c ! j) = Make g" "body g = Builds"
      by (auto simp: builds_def)
    from bi obtain f where f: "producer (nodes c ! i) = Make f" "body f = Builds"
      by (auto simp: builds_def)
    from a(1) g have "w = Instance r0 (fid g) args0" "r' = Suc r0" by (simp_all add: invoke_builds)
    moreover from assms(4) f have "v = Instance (next_ref c) (fid f) args"
      by (simp add: invoke_builds)
    ultimately show ?thesis using a(2) Some by simp
  qed
  have d: "distinct_built ?c3"
    unfolding distinct_built_def
  proof (intro allI impI)
    fix a b assume a: "a < length (nodes ?c3)" and b: "b < length (nodes ?c3)"
      and h: "a \<noteq> b \<and> builds (producer (nodes ?c3 ! a)) \<and> builds (producer (nodes ?c3 ! b))
              \<and> cached (nodes ?c3 ! a) \<noteq> None"
    show "cached (nodes ?c3 ! a) \<noteq> cached (nodes ?c3 ! b)"
    proof (cases "a = i")
      case True
      with h have bi: "b \<noteq> i" by simp
      from h True at_i(2) have "builds (producer (nodes c ! i))" by simp
      moreover from h other[OF bi] have "builds (producer (nodes c ! b))" by simp
      ultimately have "Some v \<noteq> cached (nodes c ! b)" using b len new_old by simp
      then show ?thesis unfolding True at_i(1) other[OF bi] .
    next
      case False
      show ?thesis
      proof (cases "b = i")
        case True
        from h True at_i(2) have "builds (producer (nodes c ! i))" by simp
        moreover from h other[OF False] have "builds (producer (nodes c ! a))" by simp
        ultimately have "Some v \<noteq> cached (nodes c ! a)" using a len new_old by simp
        then show ?thesis unfolding True at_i(1) other[OF False] by simp
      next
        case bi: False
        from assms(1) have "distinct_built c" by (simp add: sound_def)
        with a b h len show ?thesis
          unfolding other[OF False] other[OF bi] distinct_built_def by simp
      qed
    qed
  qed
  from p d show ?thesis by (simp add: sound_def)
qed

lemma cached_map:
  "map (\<lambda>j. cached (nodes c ! j)) js = map Some vs
     \<Longrightarrow> map (cached_value c) js = vs \<and> (\<forall>j \<in> set js. cached (nodes c ! j) \<noteq> None)"
  by (induction js arbitrary: vs) (auto simp: cached_value_def)

lemma resolve_token_arg:
  assumes "resolve_token k t c = Some (Inr v, c')"
  shows "resolved_arg c' (t, optional) v"
proof -
  have e: "ext c c'" using assms by (rule resolve_ext(1))
  have ids: "ids_of c' t = ids_of c t" using e by (rule ext_ids)
  have len: "length (nodes c') = length (nodes c)" using e by (simp add: ext_def)
  show ?thesis
  proof (cases "ids_of c t")
    case Nil
    show ?thesis
    proof (cases "opts t")
      case None
      with assms Nil show ?thesis by simp
    next
      case (Some f)
      from assms Nil Some obtain args c1 where
        "resolve_deps k (scan_producer (Make f)) c = Some (Inr args, c1)"
        by (auto split: option.splits sum.splits)
      with assms Nil Some obtain a where "invoke (Make f) args (next_ref c1) = (Inr v, a)"
        by (auto split: prod.splits)
      then have "produced_by (Make f) v" unfolding produced_by_def by blast
      with Nil Some ids show ?thesis by (simp add: resolved_arg_def)
    qed
  next
    case (Cons i js)
    have valid: "\<forall>j \<in> set (i # js). j < length (nodes c)"
      using ids_of_bound[of _ c t] Cons by auto
    show ?thesis
    proof (cases "multi t")
      case True
      with assms Cons obtain vs where
        r: "resolve_nodes k (i # js) c = Some (Inr vs, c')" and v: "v = Many vs"
        by (auto split: option.splits sum.splits)
      have m: "map (\<lambda>j. cached (nodes c' ! j)) (i # js) = map Some vs"
        using r valid by (rule resolve_nodes_caches)
      from cached_map[OF m] show ?thesis using Cons True ids v
        by (simp add: resolved_arg_def value_of_def token_cached_def reads_def)
    next
      case False
      with assms Cons have rn: "resolve_node k i c = Some (Inr v, c')" by simp
      from valid have "i < length (nodes c)" by simp
      with rn have "cached (nodes c' ! i) = Some v" by (rule resolve_node_caches)
      with Cons False ids show ?thesis
        by (simp add: resolved_arg_def value_of_def token_cached_def reads_def cached_value_def)
    qed
  qed
qed

lemma resolve_deps_args:
  assumes "resolve_deps k ds c = Some (Inr args, c')"
  shows "list_all2 (resolved_arg c') ds args"
  using assms
proof (induction ds arbitrary: c args)
  case Nil
  then show ?case by simp
next
  case (Cons a ds)
  obtain d optional where a: "a = (d, optional)" by (cases a)
  let ?first = "if ids_of c d = [] \<and> opts d = None \<and> optional then Some (Inr Absent, c)
            else resolve_token k d (mark_used d c)"
  from Cons.prems a obtain r1 c1 where f: "?first = Some (r1, c1)"
    by (auto split: option.splits)
  with Cons.prems a obtain v where r1: "r1 = Inr v" by (cases r1) auto
  with Cons.prems a f obtain r2 where b: "resolve_deps k ds c1 = Some (r2, c')"
    by (auto split: option.splits sum.splits)
  with Cons.prems a f r1 obtain vs where r2: "r2 = Inr vs" and args: "args = v # vs"
    by (cases r2) auto
  have e: "ext c1 c'" using b by (rule resolve_ext(4))
  have "resolved_arg c1 (d, optional) v"
  proof (cases "ids_of c d = [] \<and> opts d = None \<and> optional")
    case True
    with f r1 show ?thesis by (simp add: resolved_arg_def)
  next
    case False
    with f r1 have "resolve_token k d (mark_used d c) = Some (Inr v, c1)" by simp
    then show ?thesis by (rule resolve_token_arg)
  qed
  with e have "resolved_arg c' (d, optional) v" by (rule ext_resolved_arg)
  with Cons.IH[OF b[unfolded r2]] a args show ?case by simp
qed


lemma resolve_sound:
  shows "resolve_token k t c = Some (r1, c1) \<Longrightarrow> sound c \<Longrightarrow> sound c1"
    and "resolve_nodes k js c = Some (r2, c2) \<Longrightarrow> \<forall>j \<in> set js. j < length (nodes c) \<Longrightarrow> sound c
           \<Longrightarrow> sound c2"
    and "resolve_node k i c = Some (r3, c3) \<Longrightarrow> i < length (nodes c) \<Longrightarrow> sound c \<Longrightarrow> sound c3"
    and "resolve_deps k ds c = Some (r4, c4) \<Longrightarrow> sound c \<Longrightarrow> sound c4"
proof (induction k t c and k js c and k i c and k ds c
    arbitrary: r1 c1 and r2 c2 and r3 c3 and r4 c4
    rule: resolve_token_resolve_nodes_resolve_node_resolve_deps.induct)
  case (1 k t c)
  show ?case
  proof (cases "ids_of c t")
    case Nil
    show ?thesis
    proof (cases "opts t")
      case None
      with "1.prems" Nil show ?thesis by simp
    next
      case (Some f)
      from "1.prems"(1) Nil Some obtain r' c' where
        a: "resolve_deps k (scan_producer (Make f)) c = Some (r', c')"
        by (auto split: option.splits)
      have s1: "sound c'" using "1.IH"(1)[OF Nil Some a "1.prems"(2)] .
      show ?thesis
      proof (cases r')
        case (Inl e)
        with "1.prems"(1) Nil Some a have "c1 = c'" by simp
        with s1 show ?thesis by simp
      next
        case (Inr args)
        obtain x r where inv: "invoke (Make f) args (next_ref c') = (x, r)"
          by (cases "invoke (Make f) args (next_ref c')")
        then have le: "next_ref c' \<le> r" by (rule invoke_next_ref)
        from "1.prems"(1) Nil Some a Inr inv have c1: "c1 = c'\<lparr>next_ref := r\<rparr>" by simp
        show ?thesis unfolding c1
          using s1 ext_next_ref[OF le] by (rule sound_frame) simp
      qed
    qed
  next
    case (Cons i js)
    have valid: "\<forall>j \<in> set (i # js). j < length (nodes c)"
      using ids_of_bound[of _ c t] Cons by auto
    show ?thesis
    proof (cases "multi t")
      case True
      with "1.prems"(1) Cons obtain r' where "resolve_nodes k (i # js) c = Some (r', c1)"
        by (auto split: option.splits sum.splits)
      from "1.IH"(2)[OF Cons True this valid "1.prems"(2)] show ?thesis .
    next
      case False
      with "1.prems"(1) Cons have "resolve_node k i c = Some (r1, c1)" by simp
      moreover from valid have "i < length (nodes c)" by simp
      ultimately show ?thesis using "1.prems"(2) by (rule "1.IH"(3)[OF Cons False])
    qed
  qed
next
  case (2 k c)
  then show ?case by simp
next
  case (3 k i js c)
  from "3.prems"(1) obtain r' c' where a: "resolve_node k i c = Some (r', c')"
    by (auto split: option.splits)
  from "3.prems"(2) have i: "i < length (nodes c)" by simp
  have s1: "sound c'" using a i "3.prems"(3) by (rule "3.IH"(1))
  show ?case
  proof (cases r')
    case (Inl e)
    with "3.prems"(1) a have "c2 = c'" by simp
    with s1 show ?thesis by simp
  next
    case (Inr v)
    with "3.prems"(1) a obtain r'' where b: "resolve_nodes k js c' = Some (r'', c2)"
      by (auto split: option.splits sum.splits)
    have "ext c c'" using a by (rule resolve_ext(3))
    with "3.prems"(2) have "\<forall>j \<in> set js. j < length (nodes c')" by (simp add: ext_def)
    from "3.IH"(2)[OF a refl Inr b this s1] show ?thesis .
  qed
next
  case (4 i c)
  then show ?case by simp
next
  case (5 k i c)
  let ?n = "nodes c ! i"
  show ?case
  proof (cases "cached ?n")
    case (Some v)
    with "5.prems" show ?thesis by simp
  next
    case None
    show ?thesis
    proof (cases "resolving ?n")
      case True
      with "5.prems" None show ?thesis by simp
    next
      case False
      let ?c0 = "update_node i (\<lambda>n. n\<lparr>resolving := True\<rparr>) c"
      from "5.prems"(1) None False obtain r' c' where
        a: "resolve_deps k (deps ?n) ?c0 = Some (r', c')"
        by (auto split: option.splits)
      have s0: "sound ?c0"
        using "5.prems"(3) ext_resolving by (rule sound_frame) (simp add: update_node_def nth_update_cases)
      have s1: "sound c'" using "5.IH"[OF None False a s0] .
      have e1: "ext ?c0 c'" using a by (rule resolve_ext(4))
      have k1: "keeps_flags ?c0 c'" using a by (rule resolve_keeps_flags(4))
      have i0: "i < length (nodes ?c0)" using "5.prems"(2) by (simp add: update_node_def)
      then have i1: "i < length (nodes c')" using e1 by (simp add: ext_def)
      have at0: "resolving (nodes ?c0 ! i)" "cached (nodes ?c0 ! i) = None"
        "producer (nodes ?c0 ! i) = producer ?n" "deps (nodes ?c0 ! i) = deps ?n"
        using "5.prems"(2) None by (simp_all add: update_node_def)
      have un: "cached (nodes c' ! i) = None"
        using k1 i0 at0(1,2) unfolding keeps_flags_def by simp
      have pd: "producer (nodes c' ! i) = producer ?n" "deps (nodes c' ! i) = deps ?n"
        using e1 i0 at0(3,4) unfolding ext_def by simp_all
      have flag: "sound (update_node i (\<lambda>n. n\<lparr>resolving := False\<rparr>) (c''\<lparr>next_ref := r\<rparr>))"
        if "sound c''" "next_ref c'' \<le> r" for c'' r
      proof -
        have "ext c'' (update_node i (\<lambda>n. n\<lparr>resolving := False\<rparr>) (c''\<lparr>next_ref := r\<rparr>))"
          using ext_next_ref[OF that(2)] ext_resolving by (rule ext_trans)
        with that(1) show ?thesis
          by (rule sound_frame) (simp add: update_node_def nth_update_cases)
      qed
      show ?thesis
      proof (cases r')
        case (Inl e)
        with "5.prems"(1) None False a
        have "c3 = update_node i (\<lambda>n. n\<lparr>resolving := False\<rparr>) c'" by simp
        with flag[OF s1, of "next_ref c'"] show ?thesis by simp
      next
        case (Inr args)
        obtain x r where inv: "invoke (producer ?n) args (next_ref c') = (x, r)"
          by (cases "invoke (producer ?n) args (next_ref c')")
        then have le: "next_ref c' \<le> r" by (rule invoke_next_ref)
        show ?thesis
        proof (cases x)
          case (Inl e)
          with "5.prems"(1) None False a Inr inv
          have "c3 = update_node i (\<lambda>n. n\<lparr>resolving := False\<rparr>) (c'\<lparr>next_ref := r\<rparr>)" by simp
          with flag[OF s1 le] show ?thesis by simp
        next
          case (Inr v)
          with "5.prems"(1) None False a \<open>r' = Inr args\<close> inv
          have c3: "c3 = update_node i (\<lambda>n. n\<lparr>cached := Some v, resolving := False\<rparr>)
                           (c'\<lparr>next_ref := r\<rparr>)"
            by simp
          have la: "list_all2 (resolved_arg c') (deps (nodes c' ! i)) args"
            unfolding pd using a[unfolded \<open>r' = Inr args\<close>] by (rule resolve_deps_args)
          have iv: "invoke (producer (nodes c' ! i)) args (next_ref c') = (Inr v, r)"
            unfolding pd using inv Inr by simp
          show ?thesis unfolding c3 using s1 i1 un iv la by (rule sound_cache)
        qed
      qed
    qed
  qed
next
  case (6 k c)
  then show ?case by simp
next
  case (7 k d optional ds c)
  let ?first = "if ids_of c d = [] \<and> opts d = None \<and> optional then Some (Inr Absent, c)
            else resolve_token k d (mark_used d c)"
  from "7.prems"(1) obtain r' c' where a: "?first = Some (r', c')"
    by (auto split: option.splits)
  have s1: "sound c'"
  proof (cases "ids_of c d = [] \<and> opts d = None \<and> optional")
    case True
    with a "7.prems"(2) show ?thesis by simp
  next
    case False
    with a have r: "resolve_token k d (mark_used d c) = Some (r', c')" by simp
    have "sound (mark_used d c)"
      using "7.prems"(2) ext_mark_used by (rule sound_frame) (simp add: mark_used_def)
    with "7.IH"(1)[OF False r] show ?thesis .
  qed
  show ?case
  proof (cases r')
    case (Inl e)
    with "7.prems"(1) a have "c4 = c'" by (simp split: if_splits)
    with s1 show ?thesis by simp
  next
    case (Inr v)
    with "7.prems"(1) a obtain r'' where "resolve_deps k ds c' = Some (r'', c4)"
      by (auto split: option.splits sum.splits if_splits)
    from "7.IH"(2)[OF a refl Inr this s1] show ?thesis .
  qed
qed

lemma bootstrap_sound:
  assumes "bootstrap c0 = Some (Inr u, c)"
    and "\<forall>m \<in> set (nodes c0). cached m = None \<and> \<not> scanned m"
  shows "sound c"
    and "\<forall>j < length (nodes c). deps (nodes c ! j) = scan_producer (producer (nodes c ! j))"
proof -
  let ?s = "c0\<lparr>nodes := map scan_node (nodes c0)\<rparr>"
  let ?n = "length (nodes c0)"
  from assms(1) obtain vs c2 where
    r: "resolve_nodes (Suc ?n) [0..<?n] ?s = Some (Inr vs, c2)" and c: "c = c2\<lparr>bootstrapped := True\<rparr>"
    by (auto simp: bootstrap_def split: option.splits sum.splits)
  have e: "ext ?s c2" using r by (rule resolve_ext(2))
  have at: "cached (nodes ?s ! j) = None
            \<and> deps (nodes ?s ! j) = scan_producer (producer (nodes ?s ! j))" if "j < ?n" for j
    using assms(2) that by (simp add: scan_node_def)
  have "sound ?s"
    using at by (simp add: sound_def provenance_def distinct_built_def)
  with r have "sound c2" by (intro resolve_sound(2)[OF r]) simp_all
  then show "sound c" unfolding c by (subst sound_nodes[of _ c2]) simp_all
  show "\<forall>j < length (nodes c). deps (nodes c ! j) = scan_producer (producer (nodes c ! j))"
    using e at unfolding ext_def c by simp
qed

lemma distinct_builtD:
  assumes "distinct_built c" "a < length (nodes c)" "b < length (nodes c)" "a \<noteq> b"
    and "builds (producer (nodes c ! a))" "builds (producer (nodes c ! b))"
    and "cached (nodes c ! a) = Some v"
  shows "cached (nodes c ! b) \<noteq> Some v"
  using assms(1)[unfolded distinct_built_def, rule_format, of a b] assms(2-) by auto

lemma distinct_ids: "distinct (ids_of c t)"
  by (simp add: ids_of_def)

subsection \<open>Registration order\<close>

lemma extractProvider_snd: "snd (extractProvider r a) = a"
  by (induction r a rule: extractProvider.induct) simp_all

lemma extractProvider_fst: "fst (extractProvider r a) = normalized r"
  unfolding normalized_def
  by (induction r a rule: extractProvider.induct) simp_all

lemma members_ids: "map ((!) (nodes c)) (ids_of c t) = members c t"
proof -
  have "members c t = filter (\<lambda>n. owner n = t) (map ((!) (nodes c)) [0..<length (nodes c)])"
    by (simp add: members_def map_nth)
  also have "\<dots> = map ((!) (nodes c)) (filter ((\<lambda>n. owner n = t) \<circ> (!) (nodes c)) [0..<length (nodes c)])"
    by (rule filter_map)
  finally show ?thesis by (simp add: ids_of_def o_def)
qed

lemma filter_update_irrelevant:
  "\<not> P (xs ! i) \<Longrightarrow> \<not> P x \<Longrightarrow> filter P (xs[i := x]) = filter P xs"
proof (induction xs arbitrary: i)
  case Nil
  show ?case by simp
next
  case (Cons y ys)
  then show ?case by (cases i) simp_all
qed

lemma add_node_members:
  assumes "multi t"
  shows "members (add_node n c) t = members c t @ (if owner n = t then [n] else [])"
proof (cases "multi (owner n)")
  case True
  then show ?thesis by (simp add: add_node_def members_def)
next
  case False
  with assms have ne: "owner n \<noteq> t" by auto
  show ?thesis
  proof (cases "ids_of c (owner n)")
    case Nil
    with False ne show ?thesis by (simp add: add_node_def members_def)
  next
    case (Cons i js)
    then have "i \<in> set (ids_of c (owner n))" by simp
    then have "owner (nodes c ! i) = owner n" by (simp add: ids_of_def)
    with ne have "filter (\<lambda>m. owner m = t) ((nodes c)[i := n]) = filter (\<lambda>m. owner m = t) (nodes c)"
      by (intro filter_update_irrelevant) simp_all
    with False ne Cons show ?thesis by (simp add: add_node_def members_def)
  qed
qed

lemma add_node_fresh:
  assumes "\<forall>m \<in> set (nodes c). cached m = None \<and> \<not> scanned m" "cached n = None \<and> \<not> scanned n"
  shows "\<forall>m \<in> set (nodes (add_node n c)). cached m = None \<and> \<not> scanned m"
proof -
  have "set ((nodes c)[i := n]) \<subseteq> insert n (set (nodes c))" for i
    by (rule set_update_subset_insert)
  with assms show ?thesis
    by (auto simp: add_node_def split: list.splits)
qed

lemma provide_step:
  assumes "provide r c = Inr c'"
  shows "\<exists>u p. token_of r = Some u \<and> normalized r = Inr p
           \<and> c' = add_node (new_node u p) c"
proof -
  obtain x a where e: "extractProvider r (next_ref c) = (x, a)"
    by (cases "extractProvider r (next_ref c)")
  have a: "a = next_ref c" using extractProvider_snd[of r "next_ref c"] e by simp
  have x: "x = normalized r" using extractProvider_fst[of r "next_ref c"] e by simp
  from assms e obtain p u where "x = Inr p" "token_of r = Some u"
    "c' = add_node (new_node u p) (c\<lparr>next_ref := a\<rparr>)"
    by (cases x; cases "token_of r") (auto simp: provide_def split: if_splits)
  with a x have "token_of r = Some u" "normalized r = Inr p" "c' = add_node (new_node u p) c"
    by simp_all
  then show ?thesis by blast
qed

lemma provide_all_members:
  assumes "provide_all rs c = Inr c'" "multi t"
  shows "map producer (members c' t) = map producer (members c t) @ producers_for t rs"
  using assms(1)
proof (induction rs arbitrary: c)
  case Nil
  then show ?case by simp
next
  case (Cons r rs)
  from Cons.prems obtain c1 where p: "provide r c = Inr c1" and rest: "provide_all rs c1 = Inr c'"
    by (auto split: sum.splits)
  from provide_step[OF p] obtain u p' where
    u: "token_of r = Some u" "normalized r = Inr p'" "c1 = add_node (new_node u p') c" by blast
  have "map producer (members c1 t) = map producer (members c t) @ (if u = t then [p'] else [])"
    unfolding u(3) add_node_members[OF assms(2)] by (simp add: new_node_def)
  with Cons.IH[OF rest] u show ?case by simp
qed

lemma provide_all_fresh:
  assumes "provide_all rs c = Inr c'" "\<forall>m \<in> set (nodes c). cached m = None \<and> \<not> scanned m"
  shows "\<forall>m \<in> set (nodes c'). cached m = None \<and> \<not> scanned m"
  using assms
proof (induction rs arbitrary: c)
  case Nil
  then show ?case by simp
next
  case (Cons r rs)
  from Cons.prems(1) obtain c1 where p: "provide r c = Inr c1" and rest: "provide_all rs c1 = Inr c'"
    by (auto split: sum.splits)
  from provide_step[OF p] obtain u p' where u: "c1 = add_node (new_node u p') c" by blast
  have "\<forall>m \<in> set (nodes c1). cached m = None \<and> \<not> scanned m"
    unfolding u using Cons.prems(2) by (rule add_node_fresh) (simp add: new_node_def)
  with Cons.IH[OF rest] show ?case by simp
qed


text \<open>
  Claim C6. When the registrations \<open>regs\<close> have been provided to a new container and
  bootstrap has succeeded, \<^verbatim>\<open>get\<close> for a multi-token with at least one provider
  returns an array with one element for each of the token's providers. The \<open>i\<close>-th
  element is the cached instance of the token's \<open>i\<close>-th node, whose producer is the
  \<open>i\<close>-th of the token's providers in the order of registration, and it is the value
  that this provider returned when it was called with the resolved values of the tokens
  it requests, in whatever order the nodes were resolved. Elements that two providers
  built are different objects.
\<close>

theorem multi_token_registration_order:
  assumes "provide_all regs new_container = Inr c0" and "bootstrap c0 = Some (Inr (), c)"
    and "multi t" and "producers_for t regs \<noteq> []"
  shows "\<exists>vs. get t c = Some (Inr (Many vs), mark_used t c)
           \<and> length vs = length (producers_for t regs)
           \<and> length (ids_of c t) = length (producers_for t regs)
           \<and> (\<forall>i < length vs.
                  producer (nodes c ! (ids_of c t ! i)) = producers_for t regs ! i
                \<and> cached (nodes c ! (ids_of c t ! i)) = Some (vs ! i)
                \<and> (\<exists>args r r'.
                      invoke (producers_for t regs ! i) args r = (Inr (vs ! i), r')
                    \<and> r' \<le> next_ref c
                    \<and> list_all2 (resolved_arg c) (scan_producer (producers_for t regs ! i)) args))
           \<and> (\<forall>i < length vs. \<forall>j < length vs.
                  i \<noteq> j \<and> builds (producers_for t regs ! i) \<and> builds (producers_for t regs ! j)
                  \<longrightarrow> vs ! i \<noteq> vs ! j)"
proof -
  let ?ps = "producers_for t regs"
  let ?ids = "ids_of c t"
  have ar: "all_resolved c" using assms(2) by (rule bootstrap_result(1))
  have ids: "?ids = ids_of c0 t" using assms(2) by (rule bootstrap_ids)
  have fresh: "\<forall>m \<in> set (nodes c0). cached m = None \<and> \<not> scanned m"
    using assms(1) by (rule provide_all_fresh) (simp add: new_container_def)
  have snd: "sound c" and dp: "\<forall>j < length (nodes c). deps (nodes c ! j) = scan_producer (producer (nodes c ! j))"
    using bootstrap_sound[OF assms(2) fresh] by simp_all
  have "map producer (members c0 t) = ?ps"
    using provide_all_members[OF assms(1,3)] by (simp add: members_def new_container_def)
  then have ps0: "?ps = map (\<lambda>j. producer (nodes c0 ! j)) (ids_of c0 t)"
    by (simp add: members_ids[symmetric] o_def)
  have same: "producer (nodes c ! j) = producer (nodes c0 ! j)" if "j \<in> set (ids_of c0 t)" for j
    using bootstrap_result(3)[OF assms(2)] ids_of_bound[OF that] by simp
  have ps: "?ps = map (\<lambda>j. producer (nodes c ! j)) ?ids"
    unfolding ps0 ids using same by (intro map_cong) simp_all
  with assms(4) have ne: "?ids \<noteq> []" by auto
  let ?vs = "map (cached_value c) ?ids"
  have val: "value_of c t = Many ?vs"
    using ne assms(3) by (cases ?ids) (simp_all add: value_of_def)
  have g: "get t c = Some (Inr (Many ?vs), mark_used t c)"
    using get_resolved[OF ar, of t] ne val by simp
  have len: "length ?vs = length ?ps" by (simp add: ps)
  have len2: "length ?ids = length ?ps" by (simp add: ps)
  have node: "\<exists>v. cached (nodes c ! (?ids ! i)) = Some v \<and> ?vs ! i = v
                \<and> ?ids ! i < length (nodes c) \<and> producer (nodes c ! (?ids ! i)) = ?ps ! i"
    if i: "i < length ?vs" for i
  proof -
    from i have "?ids ! i \<in> set ?ids" by simp
    then have jb: "?ids ! i < length (nodes c)" by (rule ids_of_bound)
    with ar obtain v where v: "cached (nodes c ! (?ids ! i)) = Some v"
      by (auto simp: all_resolved_def)
    have "producer (nodes c ! (?ids ! i)) = ?ps ! i" using i by (simp add: ps)
    with i v jb show ?thesis by (simp add: cached_value_def)
  qed
  have each: "producer (nodes c ! (?ids ! i)) = ?ps ! i
      \<and> cached (nodes c ! (?ids ! i)) = Some (?vs ! i)
      \<and> (\<exists>args r r'. invoke (?ps ! i) args r = (Inr (?vs ! i), r') \<and> r' \<le> next_ref c
            \<and> list_all2 (resolved_arg c) (scan_producer (?ps ! i)) args)"
    if i: "i < length ?vs" for i
  proof -
    from node[OF i] obtain v where v: "cached (nodes c ! (?ids ! i)) = Some v" "?vs ! i = v"
      "?ids ! i < length (nodes c)" "producer (nodes c ! (?ids ! i)) = ?ps ! i" by blast
    from snd v(1,3) obtain args r r' where
      a: "invoke (producer (nodes c ! (?ids ! i))) args r = (Inr v, r')" "r' \<le> next_ref c"
         "list_all2 (resolved_arg c) (deps (nodes c ! (?ids ! i))) args"
      unfolding sound_def provenance_def by blast
    from dp v(3) have "deps (nodes c ! (?ids ! i)) = scan_producer (producer (nodes c ! (?ids ! i)))"
      by simp
    with a v show ?thesis by auto
  qed
  have diff: "?vs ! i \<noteq> ?vs ! j"
    if i: "i < length ?vs" and j: "j < length ?vs"
      and h: "i \<noteq> j \<and> builds (?ps ! i) \<and> builds (?ps ! j)" for i j
  proof -
    from node[OF i] obtain v where v: "cached (nodes c ! (?ids ! i)) = Some v" "?vs ! i = v"
      "?ids ! i < length (nodes c)" "producer (nodes c ! (?ids ! i)) = ?ps ! i" by blast
    from node[OF j] obtain w where w: "cached (nodes c ! (?ids ! j)) = Some w" "?vs ! j = w"
      "?ids ! j < length (nodes c)" "producer (nodes c ! (?ids ! j)) = ?ps ! j" by blast
    have "?ids ! i \<noteq> ?ids ! j"
      using distinct_ids[of c t] i j h by (simp add: nth_eq_iff_index_eq)
    moreover from snd have "distinct_built c" by (simp add: sound_def)
    moreover from h v(4) w(4) have "builds (producer (nodes c ! (?ids ! i)))"
      "builds (producer (nodes c ! (?ids ! j)))" by simp_all
    ultimately have "cached (nodes c ! (?ids ! j)) \<noteq> Some v"
      using v(1,3) w(3) by (intro distinct_builtD[of c "?ids ! i" "?ids ! j" v]) simp_all
    with v w show ?thesis by simp
  qed
  show ?thesis
    apply (rule exI[of _ ?vs])
    apply (intro conjI)
        apply (rule g)
       apply (rule len)
      apply (rule len2)
     using each apply blast
    using diff apply blast
    done
qed

text \<open>
  Claim C8. \<^verbatim>\<open>extractProvider\<close> fails with \<^verbatim>\<open>InvalidProvider\<close> exactly for the
  registrations whose shape is not recognized, among them every bare function that is
  not a constructor and every registration object with none of the four variants; for a
  recognized registration it returns the registration's producer (the value wrapped, the
  factory itself, the class's constructor, the alias's target); and in each case the
  counter of built objects is as it was: no producer has run.
\<close>

theorem extractProvider_invalid_or_producer:
  "(fst (extractProvider r a) = Inl InvalidProvider) = (\<not> recognized r)
   \<and> (recognized r \<longrightarrow> (\<exists>p. fst (extractProvider r a) = Inr p))
   \<and> snd (extractProvider r a) = a
   \<and> fst (extractProvider (BareFunction f) a) = Inl InvalidProvider
   \<and> fst (extractProvider (Registration t None None None None) a) = Inl InvalidProvider
   \<and> extractProvider (BareConstructor t g) a = (Inr (Make g), a)
   \<and> extractProvider (Registration t (Some v) None None None) a = (Inr (Const v), a)
   \<and> extractProvider (Registration t None (Some g) None None) a = (Inr (Make g), a)
   \<and> extractProvider (Registration t None None (Some g) None) a = (Inr (Make g), a)
   \<and> extractProvider (Registration t None None None (Some u)) a = (Inr (Redirect u), a)"
proof -
  have cls: "(fst (extractProvider r a) = Inl InvalidProvider) = (\<not> recognized r)
             \<and> (recognized r \<longrightarrow> (\<exists>p. fst (extractProvider r a) = Inr p))"
  proof (cases r)
    case (BareConstructor u c)
    then show ?thesis by simp
  next
    case (BareFunction g)
    then show ?thesis by simp
  next
    case (Registration u v g c u')
    then show ?thesis
      by (cases v; cases g; cases c; cases u') simp_all
  qed
  with extractProvider_snd[of r a] show ?thesis by simp
qed

subsection \<open>The concrete container\<close>

lemmas tok_defs = CONFIG_def LOGGER_def PLUGINS_def RUNTIME_def MISSING_def Logger_def PluginA_def
  PluginB_def RuntimeClass_def testFactory_def

lemma provided0: "provide_all regs0 new_container = Inr registered0"
  by (simp add: regs0_def registered0_def new_container_def provide_def add_node_def ids_of_def
      tok_defs new_node_def)

lemma bootstrapped0: "bootstrap registered0 = Some (Inr (), booted0)"
  by (simp add: bootstrap_def registered0_def booted0_def booted_node_def new_node_def tok_defs
      scan_node_def update_node_def mark_used_def ids_of_def upt_rec logger0_def pluginA0_def
      pluginB0_def)

lemma ids_logger: "ids_of booted0 LOGGER = [1]"
  by (simp add: ids_of_def booted0_def booted_node_def tok_defs upt_rec)


lemma get_plugins0:
  "get PLUGINS booted0 = Some (Inr (Many [pluginA0, pluginB0]), mark_used PLUGINS booted0)"
  by (simp add: get_def ids_of_def mark_used_def booted0_def booted_node_def tok_defs upt_rec)

text \<open>
  Witness for C5: the logger of the concrete container is the object it got at
  bootstrap, at the first \<^verbatim>\<open>get\<close>, the second, and after other calls.
\<close>

theorem singleton_per_container_witness:
  "get LOGGER booted0 = Some (Inr logger0, mark_used LOGGER booted0)
   \<and> get LOGGER (mark_used LOGGER booted0)
       = Some (Inr logger0, mark_used LOGGER (mark_used LOGGER booted0))
   \<and> get LOGGER (after_operations [Get PLUGINS, Produce RuntimeClass, Get RUNTIME] booted0)
       = Some (Inr logger0,
           mark_used LOGGER (after_operations [Get PLUGINS, Produce RuntimeClass, Get RUNTIME] booted0))"
proof -
  have single: "\<not> multi LOGGER" by (simp add: LOGGER_def)
  have registered: "ids_of registered0 LOGGER \<noteq> []"
    by (simp add: ids_of_def registered0_def new_node_def tok_defs upt_rec)
  from singleton_per_container[OF bootstrapped0 single registered]
  obtain i js v where ids: "ids_of booted0 LOGGER = i # js"
    and v: "cached (nodes booted0 ! i) = Some v"
    and g: "get LOGGER booted0 = Some (Inr v, mark_used LOGGER booted0)"
           "get LOGGER (mark_used LOGGER booted0)
              = Some (Inr v, mark_used LOGGER (mark_used LOGGER booted0))"
           "\<And>ops. get LOGGER (after_operations ops booted0)
              = Some (Inr v, mark_used LOGGER (after_operations ops booted0))"
    by blast
  from ids ids_logger have "i = 1" by simp
  with v have "v = logger0" by (simp add: booted0_def booted_node_def)
  with g show ?thesis by (simp del: after_operations.simps)
qed

text \<open>
  Witness for C6: the second plugin was built after the logger and the first plugin, and
  the first plugin's provider was registered before every other provider; the array has
  the first provider's object first. The first plugin is what its class built from the
  container's logger at reference 1, the second what its class built at reference 2.
\<close>

theorem multi_token_registration_order_witness:
  "producers_for PLUGINS regs0 = [Make PluginA, Make PluginB]
   \<and> get PLUGINS booted0 = Some (Inr (Many [pluginA0, pluginB0]), mark_used PLUGINS booted0)
   \<and> (\<exists>r r'. invoke (Make PluginA) [value_of booted0 LOGGER] r = (Inr pluginA0, r') \<and> r' \<le> 3)
   \<and> (\<exists>r r'. invoke (Make PluginB) [] r = (Inr pluginB0, r') \<and> r' \<le> 3)
   \<and> value_of booted0 LOGGER = logger0
   \<and> pluginA0 \<noteq> pluginB0"
proof -
  have ps: "producers_for PLUGINS regs0 = [Make PluginA, Make PluginB]"
    by (simp add: regs0_def normalized_def tok_defs)
  have m: "multi PLUGINS" by (simp add: PLUGINS_def)
  have ne: "producers_for PLUGINS regs0 \<noteq> []" by (simp add: ps)
  have bA: "builds (Make PluginA)" and bB: "builds (Make PluginB)"
    by (simp_all add: builds_def PluginA_def PluginB_def)
  have lg: "ids_of booted0 LOGGER \<noteq> []" by (simp add: ids_logger)
  have sl: "\<not> multi LOGGER" by (simp add: LOGGER_def)
  have vl: "value_of booted0 LOGGER = logger0"
    unfolding value_of_def ids_logger
    using sl by (simp add: cached_value_def booted0_def booted_node_def)
  have n3: "next_ref booted0 = 3" by (simp add: booted0_def)
  from multi_token_registration_order[OF provided0 bootstrapped0 m ne]
  obtain vs where g: "get PLUGINS booted0 = Some (Inr (Many vs), mark_used PLUGINS booted0)"
    and len: "length vs = 2"
    and each: "\<And>i. i < length vs \<Longrightarrow>
         \<exists>args r r'. invoke ([Make PluginA, Make PluginB] ! i) args r = (Inr (vs ! i), r')
            \<and> r' \<le> next_ref booted0
            \<and> list_all2 (resolved_arg booted0) (scan_producer ([Make PluginA, Make PluginB] ! i)) args"
    and diff: "\<And>i j. i < length vs \<Longrightarrow> j < length vs \<Longrightarrow>
         i \<noteq> j \<and> builds ([Make PluginA, Make PluginB] ! i) \<and> builds ([Make PluginA, Make PluginB] ! j)
           \<Longrightarrow> vs ! i \<noteq> vs ! j"
    unfolding ps by auto
  from g get_plugins0 have vs: "vs = [pluginA0, pluginB0]" by simp
  from each[of 0] len obtain args r r' where
    a: "invoke (Make PluginA) args r = (Inr pluginA0, r')" "r' \<le> 3"
       "list_all2 (resolved_arg booted0) (scan_producer (Make PluginA)) args"
    unfolding vs n3 by auto
  from a(3) lg have "args = [value_of booted0 LOGGER]"
    by (auto simp: PluginA_def list_all2_Cons1 resolved_arg_def)
  with a have pa: "\<exists>r r'. invoke (Make PluginA) [value_of booted0 LOGGER] r = (Inr pluginA0, r') \<and> r' \<le> 3"
    by blast
  from each[of 1] len obtain args1 r1 r1' where
    b: "invoke (Make PluginB) args1 r1 = (Inr pluginB0, r1')" "r1' \<le> 3"
       "list_all2 (resolved_arg booted0) (scan_producer (Make PluginB)) args1"
    unfolding vs n3 by auto
  from b(3) have "args1 = []" by (simp add: PluginB_def)
  with b have pb: "\<exists>r r'. invoke (Make PluginB) [] r = (Inr pluginB0, r') \<and> r' \<le> 3" by blast
  from diff[of 0 1] len bA bB have "pluginA0 \<noteq> pluginB0" unfolding vs by simp
  with ps g pa pb vl show ?thesis unfolding vs by simp
qed


text \<open>
  Witness for C8: a factory registration gives back its factory, a bare function and an
  empty registration object are refused, and the counter stays at 7.
\<close>

theorem extractProvider_invalid_or_producer_witness:
  "extractProvider (Registration LOGGER None (Some Logger) None None) 7 = (Inr (Make Logger), 7)
   \<and> extractProvider (BareFunction testFactory) 7 = (Inl InvalidProvider, 7)
   \<and> extractProvider (Registration LOGGER None None None None) 7 = (Inl InvalidProvider, 7)"
proof -
  let ?r = "Registration LOGGER None (Some Logger) None None"
  have "recognized ?r" by simp
  with extractProvider_invalid_or_producer[of ?r 7 testFactory LOGGER Logger "Data ''x''" CONFIG]
  obtain p where "fst (extractProvider ?r 7) = Inr p" "snd (extractProvider ?r 7) = 7"
    "fst (extractProvider (BareFunction testFactory) 7) = Inl InvalidProvider"
    "fst (extractProvider (Registration LOGGER None None None None) 7) = Inl InvalidProvider"
    by blast
  then show ?thesis by simp
qed

end
